theory Spec2Isabelle
  imports Main "HOL-Library.Word"
begin

unbundle bit_operations_syntax

section \<open>The virtual memory manager of kernel/vm/vmm.c\<close>

text \<open>
  A shallow embedding of \<^verbatim>\<open>src/kernel/vm/vmm.c\<close>. Addresses and sizes are the
  32-bit unsigned integers of LK's ILP32 targets (\<^verbatim>\<open>unsigned long\<close>, \<^verbatim>\<open>size_t\<close>
  and \<^verbatim>\<open>uint\<close> are all 32 bits wide there), so \<open>+\<close> and \<open>-\<close> wrap as they do in C.
  The intrusive region list of an address space is a HOL list in list order; a pointer
  to a list node is the position of the node in that list.

  \<^verbatim>\<open>DEBUG_ASSERT\<close> is compiled out at \<^verbatim>\<open>LK_DEBUGLEVEL\<close> 0 and 1 and halts the kernel
  otherwise. The functions below are those of the build without assertions; a build
  with assertions returns from a call only where this one does, with the same result.
\<close>

type_synonym vaddr_t = "32 word"
type_synonym paddr_t = "32 word"
type_synonym size_t = "32 word"
type_synonym uint = "32 word"
type_synonym uint8_t = "8 word"
type_synonym vm_page = nat

datatype status_t = NO_ERROR | ERR_GENERIC | ERR_NO_MEMORY | ERR_INVALID_ARGS | ERR_OUT_OF_RANGE

subsection \<open>Constants and macros of the headers\<close>

text \<open>
  Modelled from the spec: the headers \<^verbatim>\<open>kernel/vm.h\<close>, \<^verbatim>\<open>vm_priv.h\<close>, \<^verbatim>\<open>err.h\<close> and
  \<^verbatim>\<open>compiler.h\<close> are not among the sources. The page size is the 4096 bytes of the
  spec's scenarios, \<^verbatim>\<open>ROUNDUP\<close>, \<^verbatim>\<open>ALIGN\<close> and \<^verbatim>\<open>IS_PAGE_ALIGNED\<close> are the standard
  power-of-two macros, the flag bits are distinct single bits, and a name buffer holds
  31 characters and the terminator.
\<close>

definition PAGE_SIZE_SHIFT :: nat where
  "PAGE_SIZE_SHIFT = 12"

definition PAGE_SIZE :: "32 word" where
  "PAGE_SIZE = push_bit PAGE_SIZE_SHIFT 1"

definition ULONG_MAX :: "32 word" where
  "ULONG_MAX = - 1"

definition ROUNDUP :: "32 word \<Rightarrow> 32 word \<Rightarrow> 32 word" where
  "ROUNDUP a b = (a + (b - 1)) AND NOT (b - 1)"

definition ALIGN :: "32 word \<Rightarrow> 32 word \<Rightarrow> 32 word" where
  "ALIGN a b = ROUNDUP a b"

definition IS_PAGE_ALIGNED :: "32 word \<Rightarrow> bool" where
  "IS_PAGE_ALIGNED x = (x AND (PAGE_SIZE - 1) = 0)"

definition VMM_FLAG_VALLOC_SPECIFIC :: uint where
  "VMM_FLAG_VALLOC_SPECIFIC = 1"

definition VMM_REGION_FLAG_RESERVED :: uint where
  "VMM_REGION_FLAG_RESERVED = 1"

definition VMM_REGION_FLAG_PHYSICAL :: uint where
  "VMM_REGION_FLAG_PHYSICAL = 2"

definition NAME_BYTES :: nat where
  "NAME_BYTES = 32"

definition strlcpy :: "string \<Rightarrow> nat \<Rightarrow> string" where
  "strlcpy src n = take (n - 1) src"

subsection \<open>Regions and address spaces\<close>

record vmm_region =
  r_name :: string
  r_base :: vaddr_t
  r_size :: size_t
  r_flags :: uint
  r_arch_mmu_flags :: uint
  r_page_list :: "vm_page list"

record vmm_aspace =
  a_name :: string
  a_base :: vaddr_t
  a_size :: size_t
  a_flags :: uint
  region_list :: "vmm_region list"

text \<open>
  \<^verbatim>\<open>vmm_init\<close> fills in the kernel address space from \<^verbatim>\<open>KERNEL_ASPACE_BASE\<close> and
  \<^verbatim>\<open>KERNEL_ASPACE_SIZE\<close>, build-time constants that are parameters here; the
  structure has static storage, so its flags are zero.
\<close>

definition vmm_init :: "vaddr_t \<Rightarrow> size_t \<Rightarrow> vmm_aspace" where
  "vmm_init KERNEL_ASPACE_BASE KERNEL_ASPACE_SIZE =
     \<lparr>a_name = strlcpy ''kernel'' NAME_BYTES, a_base = KERNEL_ASPACE_BASE,
      a_size = KERNEL_ASPACE_SIZE, a_flags = 0, region_list = []\<rparr>"

subsection \<open>Range utilities\<close>

definition is_inside_aspace :: "vmm_aspace \<Rightarrow> vaddr_t \<Rightarrow> bool" where
  "is_inside_aspace aspace vaddr =
     (vaddr \<ge> a_base aspace \<and> vaddr \<le> a_base aspace + a_size aspace - 1)"

definition is_region_inside_aspace :: "vmm_aspace \<Rightarrow> vaddr_t \<Rightarrow> size_t \<Rightarrow> bool" where
  "is_region_inside_aspace aspace vaddr sz =
     (if \<not> is_inside_aspace aspace vaddr then False
      else if sz = 0 then True
      else if vaddr + sz - 1 < vaddr then False
      else if vaddr + sz - 1 > a_base aspace + a_size aspace - 1 then False
      else True)"

definition trim_to_aspace :: "vmm_aspace \<Rightarrow> vaddr_t \<Rightarrow> size_t \<Rightarrow> size_t" where
  "trim_to_aspace aspace vaddr sz =
     (if sz = 0 then sz
      else
        let offset = vaddr - a_base aspace;
            sz1 = (if offset + sz < offset then ULONG_MAX - offset - 1 else sz);
            sz2 = (if offset + sz1 \<ge> a_size aspace - 1 then a_size aspace - offset else sz1)
        in sz2)"

subsection \<open>The region store\<close>

text \<open>
  \<^verbatim>\<open>alloc_region_struct\<close> takes the region from the heap; \<open>heap_ok\<close> says whether
  \<^verbatim>\<open>malloc\<close> has room for it.
\<close>

definition alloc_region_struct ::
  "bool \<Rightarrow> string \<Rightarrow> vaddr_t \<Rightarrow> size_t \<Rightarrow> uint \<Rightarrow> uint \<Rightarrow> vmm_region option" where
  "alloc_region_struct heap_ok name base sz flags arch_mmu_flags =
     (if \<not> heap_ok then None
      else Some \<lparr>r_name = strlcpy name NAME_BYTES, r_base = base, r_size = sz,
                 r_flags = flags, r_arch_mmu_flags = arch_mmu_flags, r_page_list = []\<rparr>)"

text \<open>
  \<^verbatim>\<open>list_add_after\<close> on the node at position \<open>k - 1\<close> (the list head for \<open>k = 0\<close>) puts
  the new region at position \<open>k\<close>.
\<close>

definition list_add_after :: "nat \<Rightarrow> vmm_region \<Rightarrow> vmm_region list \<Rightarrow> vmm_region list" where
  "list_add_after k r rs = take k rs @ r # drop k rs"

text \<open>
  The walk of \<^verbatim>\<open>add_region_to_aspace\<close> over the list: \<open>i\<close> is the position of
  the node \<^verbatim>\<open>last\<close>, and the result is the position the region is inserted at.
\<close>

fun add_region_walk :: "vmm_region \<Rightarrow> vaddr_t \<Rightarrow> nat \<Rightarrow> vmm_region list \<Rightarrow> nat option" where
  "add_region_walk r r_end i [] = None"
| "add_region_walk r r_end i (lst # rest) =
     (if r_base r > r_base lst + r_size lst - 1 \<and>
         (case rest of [] \<Rightarrow> True | next # _ \<Rightarrow> r_end < r_base next)
      then Some (Suc i)
      else add_region_walk r r_end (Suc i) rest)"

text \<open>
  The result is the status, the address space, and the position of \<open>r\<close> in its list
  after a successful insertion (the pointer \<open>r\<close> that the caller keeps).
\<close>

definition add_region_to_aspace ::
  "vmm_aspace \<Rightarrow> vmm_region \<Rightarrow> status_t \<times> vmm_aspace \<times> nat" where
  "add_region_to_aspace aspace r =
     (if r_size r = 0 \<or> \<not> is_region_inside_aspace aspace (r_base r) (r_size r)
      then (ERR_OUT_OF_RANGE, aspace, 0)
      else
        let r_end = r_base r + r_size r - 1 in
        case region_list aspace of
          [] \<Rightarrow> (NO_ERROR, aspace\<lparr>region_list := list_add_after 0 r (region_list aspace)\<rparr>, 0)
        | first # _ \<Rightarrow>
            if r_end < r_base first
            then (NO_ERROR, aspace\<lparr>region_list := list_add_after 0 r (region_list aspace)\<rparr>, 0)
            else
              (case add_region_walk r r_end 0 (region_list aspace) of
                 Some k \<Rightarrow>
                   (NO_ERROR, aspace\<lparr>region_list := list_add_after k r (region_list aspace)\<rparr>, k)
               | None \<Rightarrow> (ERR_NO_MEMORY, aspace, 0)))"

text \<open>
  The loop of \<^verbatim>\<open>alloc_spot\<close> over the list: \<open>i\<close> is the position of \<open>r\<close>; the result
  is the spot and the position to insert at, or \<open>None\<close> when the loop ends or breaks.
\<close>

fun alloc_spot_walk ::
  "vmm_aspace \<Rightarrow> size_t \<Rightarrow> vaddr_t \<Rightarrow> nat \<Rightarrow> vmm_region list \<Rightarrow> (vaddr_t \<times> nat) option" where
  "alloc_spot_walk aspace sz align i [] = None"
| "alloc_spot_walk aspace sz align i (r # rest) =
     (let spot = ALIGN (r_base r + r_size r) align in
      if \<not> is_inside_aspace aspace spot then None
      else
        (case rest of
           next # _ \<Rightarrow>
             if spot \<ge> r_base next then alloc_spot_walk aspace sz align (Suc i) rest
             else if r_base next - spot \<ge> sz then Some (spot, Suc i)
             else alloc_spot_walk aspace sz align (Suc i) rest
         | [] \<Rightarrow>
             if (a_base aspace + a_size aspace) - spot \<ge> sz then Some (spot, Suc i)
             else alloc_spot_walk aspace sz align (Suc i) rest))"

text \<open>
  \<^verbatim>\<open>alloc_spot\<close> returns the spot, \<open>-1\<close> when there is none, and stores the insertion
  point through \<open>before\<close> (\<open>None\<close> when nothing is stored). The shift
  \<^verbatim>\<open>1UL << align_pow2\<close> is undefined in C from \<open>align_pow2 = 32\<close> on, where
  \<open>push_bit\<close> gives 0; the statements about placement are for \<open>align_pow2 < 32\<close>.
\<close>

definition alloc_spot :: "vmm_aspace \<Rightarrow> size_t \<Rightarrow> uint8_t \<Rightarrow> vaddr_t \<times> nat option" where
  "alloc_spot aspace sz align_pow2 =
     (let align_pow2' = (if unat align_pow2 < PAGE_SIZE_SHIFT then PAGE_SIZE_SHIFT
                         else unat align_pow2);
          align = push_bit align_pow2' 1;
          spot = ALIGN (a_base aspace) align
      in
      if \<not> is_inside_aspace aspace spot then (- 1, None)
      else
        (case region_list aspace of
           r # _ \<Rightarrow>
             if spot < r_base r \<and> r_base r - spot \<ge> sz then (spot, Some 0)
             else
               (case alloc_spot_walk aspace sz align 0 (region_list aspace) of
                  Some (s, k) \<Rightarrow> (s, Some k)
                | None \<Rightarrow> (- 1, None))
         | [] \<Rightarrow>
             if a_base aspace + a_size aspace - spot \<ge> sz then (spot, Some 0)
             else (- 1, None)))"

text \<open>
  \<^verbatim>\<open>alloc_region\<close> returns the region, which is \<open>None\<close> for \<^verbatim>\<open>NULL\<close> and otherwise
  the position of the new region in the list of the updated address space.
\<close>

definition alloc_region ::
  "bool \<Rightarrow> vmm_aspace \<Rightarrow> string \<Rightarrow> size_t \<Rightarrow> vaddr_t \<Rightarrow> uint8_t \<Rightarrow> uint \<Rightarrow> uint \<Rightarrow> uint
     \<Rightarrow> (nat \<times> vmm_aspace) option" where
  "alloc_region heap_ok aspace name sz vaddr align_pow2 vmm_flags region_flags arch_mmu_flags =
     (case alloc_region_struct heap_ok name vaddr sz region_flags arch_mmu_flags of
        None \<Rightarrow> None
      | Some r \<Rightarrow>
          if vmm_flags AND VMM_FLAG_VALLOC_SPECIFIC \<noteq> 0 then
            (case add_region_to_aspace aspace r of
               (st, aspace', k) \<Rightarrow> if st \<noteq> NO_ERROR then None else Some (k, aspace'))
          else
            (case alloc_spot aspace sz align_pow2 of
               (vaddr', before) \<Rightarrow>
                 if vaddr' = - 1 then None
                 else
                   (case before of
                      None \<Rightarrow> None
                    | Some k \<Rightarrow>
                        Some (k, aspace\<lparr>region_list :=
                                 list_add_after k (r\<lparr>r_base := vaddr'\<rparr>) (region_list aspace)\<rparr>))))"

subsection \<open>The services the manager consumes\<close>

text \<open>
  Modelled from the spec: the physical page allocator (pmm), the MMU driver and the heap
  are not among the sources. Their operations are parameters, with the interfaces the
  spec lists: \<open>pmm_alloc_pages n\<close> enqueues up to \<open>n\<close> pages and returns the count,
  \<open>pmm_alloc_contiguous n align_pow2\<close> does the same for a physically contiguous run
  and may store its address, \<open>pmm_free\<close> returns pages to the pmm, \<open>arch_mmu_map\<close>
  returns a status, \<open>arch_mmu_query\<close> may store the flags of a mapping. \<open>'p\<close> is the
  state of the pmm and \<open>'m\<close> that of the MMU.
\<close>

record ('p, 'm) services =
  malloc_ok :: bool
  pmm_alloc_pages :: "uint \<Rightarrow> 'p \<Rightarrow> uint \<times> vm_page list \<times> 'p"
  pmm_alloc_contiguous :: "uint \<Rightarrow> uint8_t \<Rightarrow> 'p \<Rightarrow> uint \<times> paddr_t option \<times> vm_page list \<times> 'p"
  pmm_free :: "vm_page list \<Rightarrow> 'p \<Rightarrow> 'p"
  page_to_address :: "vm_page \<Rightarrow> paddr_t"
  arch_mmu_map :: "vaddr_t \<Rightarrow> paddr_t \<Rightarrow> uint \<Rightarrow> uint \<Rightarrow> 'm \<Rightarrow> int \<times> 'm"
  arch_mmu_query :: "vaddr_t \<Rightarrow> 'm \<Rightarrow> uint option"

record ('p, 'm) world =
  pmm :: 'p
  mmu :: 'm

subsection \<open>The public calls\<close>

text \<open>
  A pointer argument that may be \<^verbatim>\<open>NULL\<close> is an option: \<open>aspace\<close> where the call
  tests it, \<open>name\<close>, and \<open>ptr\<close>, whose value is the address \<open>*ptr\<close> holds. Each call
  returns its status with the address space, \<open>*ptr\<close> and the services' state as the
  call leaves them.
\<close>

definition vmm_reserve_space ::
  "('p, 'm) services \<Rightarrow> vmm_aspace option \<Rightarrow> string option \<Rightarrow> size_t \<Rightarrow> vaddr_t
     \<Rightarrow> ('p, 'm) world \<Rightarrow> status_t \<times> vmm_aspace option" where
  "vmm_reserve_space sv aspace name sz vaddr w =
     (let name' = (case name of None \<Rightarrow> [] | Some n \<Rightarrow> n) in
      case aspace of
        None \<Rightarrow> (ERR_INVALID_ARGS, aspace)
      | Some a \<Rightarrow>
          if sz = 0 then (NO_ERROR, aspace)
          else if \<not> IS_PAGE_ALIGNED vaddr \<or> \<not> IS_PAGE_ALIGNED sz
          then (ERR_INVALID_ARGS, aspace)
          else if \<not> is_inside_aspace a vaddr then (ERR_OUT_OF_RANGE, aspace)
          else
            let sz' = trim_to_aspace a vaddr sz;
                arch_mmu_flags = (case arch_mmu_query sv vaddr (mmu w) of
                                    None \<Rightarrow> 0 | Some f \<Rightarrow> f)
            in
            (case alloc_region (malloc_ok sv) a name' sz' vaddr 0 VMM_FLAG_VALLOC_SPECIFIC
                    VMM_REGION_FLAG_RESERVED arch_mmu_flags of
               None \<Rightarrow> (ERR_NO_MEMORY, aspace)
             | Some (k, a') \<Rightarrow> (NO_ERROR, Some a')))"

definition vmm_alloc_physical ::
  "('p, 'm) services \<Rightarrow> vmm_aspace option \<Rightarrow> string option \<Rightarrow> size_t \<Rightarrow> vaddr_t option
     \<Rightarrow> paddr_t \<Rightarrow> uint \<Rightarrow> uint \<Rightarrow> ('p, 'm) world
     \<Rightarrow> status_t \<times> vmm_aspace option \<times> vaddr_t option \<times> ('p, 'm) world" where
  "vmm_alloc_physical sv aspace name sz ptr paddr vmm_flags arch_mmu_flags w =
     (let name' = (case name of None \<Rightarrow> [] | Some n \<Rightarrow> n) in
      case aspace of
        None \<Rightarrow> (ERR_INVALID_ARGS, aspace, ptr, w)
      | Some a \<Rightarrow>
          if sz = 0 then (NO_ERROR, aspace, ptr, w)
          else if \<not> IS_PAGE_ALIGNED paddr \<or> \<not> IS_PAGE_ALIGNED sz
          then (ERR_INVALID_ARGS, aspace, ptr, w)
          else if vmm_flags AND VMM_FLAG_VALLOC_SPECIFIC \<noteq> 0 \<and> ptr = None
          then (ERR_INVALID_ARGS, aspace, ptr, w)
          else
            let vaddr = (if vmm_flags AND VMM_FLAG_VALLOC_SPECIFIC \<noteq> 0
                         then (case ptr of None \<Rightarrow> 0 | Some v \<Rightarrow> v) else 0)
            in
            (case alloc_region (malloc_ok sv) a name' sz vaddr 0 vmm_flags
                    VMM_REGION_FLAG_PHYSICAL arch_mmu_flags of
               None \<Rightarrow> (ERR_NO_MEMORY, aspace, ptr, w)
             | Some (k, a') \<Rightarrow>
                 let r = region_list a' ! k;
                     ptr' = (case ptr of None \<Rightarrow> None | Some _ \<Rightarrow> Some (r_base r));
                     (err, m') = arch_mmu_map sv (r_base r) paddr (sz div PAGE_SIZE)
                                   arch_mmu_flags (mmu w)
                 in (NO_ERROR, Some a', ptr', w\<lparr>mmu := m'\<rparr>)))"

text \<open>
  Moving the pages of the temporary list to the tail of the page list of the region at
  position \<open>k\<close>.
\<close>

definition attach_pages :: "nat \<Rightarrow> vm_page list \<Rightarrow> vmm_aspace \<Rightarrow> vmm_aspace" where
  "attach_pages k pages a =
     a\<lparr>region_list :=
         (region_list a)[k := (region_list a ! k)
            \<lparr>r_page_list := r_page_list (region_list a ! k) @ pages\<rparr>]\<rparr>"

definition vmm_alloc_contiguous ::
  "('p, 'm) services \<Rightarrow> vmm_aspace \<Rightarrow> string option \<Rightarrow> size_t \<Rightarrow> vaddr_t option
     \<Rightarrow> uint8_t \<Rightarrow> uint \<Rightarrow> uint \<Rightarrow> ('p, 'm) world
     \<Rightarrow> status_t \<times> vmm_aspace \<times> vaddr_t option \<times> ('p, 'm) world" where
  "vmm_alloc_contiguous sv aspace name sz0 ptr align_pow2 vmm_flags arch_mmu_flags w =
     (let sz = ROUNDUP sz0 PAGE_SIZE in
      if sz = 0 then (ERR_INVALID_ARGS, aspace, ptr, w)
      else
        let name' = (case name of None \<Rightarrow> [] | Some n \<Rightarrow> n) in
        if vmm_flags AND VMM_FLAG_VALLOC_SPECIFIC \<noteq> 0 \<and> ptr = None
        then (ERR_INVALID_ARGS, aspace, ptr, w)
        else
          let vaddr = (if vmm_flags AND VMM_FLAG_VALLOC_SPECIFIC \<noteq> 0
                       then (case ptr of None \<Rightarrow> 0 | Some v \<Rightarrow> v) else 0);
              (count, pa_out, page_list, p') =
                 pmm_alloc_contiguous sv (sz div PAGE_SIZE) align_pow2 (pmm w);
              pa = (case pa_out of None \<Rightarrow> 0 | Some x \<Rightarrow> x)
          in
          if count < sz div PAGE_SIZE then (ERR_NO_MEMORY, aspace, ptr, w\<lparr>pmm := p'\<rparr>)
          else
            case alloc_region (malloc_ok sv) aspace name' sz vaddr align_pow2 vmm_flags
                   VMM_REGION_FLAG_PHYSICAL arch_mmu_flags of
              None \<Rightarrow> (ERR_NO_MEMORY, aspace, ptr, w\<lparr>pmm := pmm_free sv page_list p'\<rparr>)
            | Some (k, a') \<Rightarrow>
                let r = region_list a' ! k;
                    ptr' = (case ptr of None \<Rightarrow> None | Some _ \<Rightarrow> Some (r_base r));
                    (err, m') = arch_mmu_map sv (r_base r) pa (sz div PAGE_SIZE)
                                  arch_mmu_flags (mmu w)
                in (NO_ERROR, attach_pages k page_list a', ptr', \<lparr>pmm = p', mmu = m'\<rparr>))"

text \<open>
  The mapping loop of \<^verbatim>\<open>vmm_alloc\<close>: one page at a time, the status of each
  \<^verbatim>\<open>arch_mmu_map\<close> dropped.
\<close>

fun map_pages ::
  "('p, 'm) services \<Rightarrow> uint \<Rightarrow> vaddr_t \<Rightarrow> vm_page list \<Rightarrow> 'm \<Rightarrow> 'm" where
  "map_pages sv arch_mmu_flags va [] m = m"
| "map_pages sv arch_mmu_flags va (p # ps) m =
     map_pages sv arch_mmu_flags (va + PAGE_SIZE) ps
       (snd (arch_mmu_map sv va (page_to_address sv p) 1 arch_mmu_flags m))"

definition vmm_alloc ::
  "('p, 'm) services \<Rightarrow> vmm_aspace \<Rightarrow> string option \<Rightarrow> size_t \<Rightarrow> vaddr_t option
     \<Rightarrow> uint8_t \<Rightarrow> uint \<Rightarrow> uint \<Rightarrow> ('p, 'm) world
     \<Rightarrow> status_t \<times> vmm_aspace \<times> vaddr_t option \<times> ('p, 'm) world" where
  "vmm_alloc sv aspace name sz0 ptr align_pow2 vmm_flags arch_mmu_flags w =
     (let sz = ROUNDUP sz0 PAGE_SIZE in
      if sz = 0 then (ERR_INVALID_ARGS, aspace, ptr, w)
      else
        let name' = (case name of None \<Rightarrow> [] | Some n \<Rightarrow> n) in
        if vmm_flags AND VMM_FLAG_VALLOC_SPECIFIC \<noteq> 0 \<and> ptr = None
        then (ERR_INVALID_ARGS, aspace, ptr, w)
        else
          let vaddr = (if vmm_flags AND VMM_FLAG_VALLOC_SPECIFIC \<noteq> 0
                       then (case ptr of None \<Rightarrow> 0 | Some v \<Rightarrow> v) else 0);
              (count, page_list, p') = pmm_alloc_pages sv (sz div PAGE_SIZE) (pmm w)
          in
          if count < sz div PAGE_SIZE
          then (ERR_NO_MEMORY, aspace, ptr, w\<lparr>pmm := pmm_free sv page_list p'\<rparr>)
          else
            case alloc_region (malloc_ok sv) aspace name' sz vaddr align_pow2 vmm_flags
                   VMM_REGION_FLAG_PHYSICAL arch_mmu_flags of
              None \<Rightarrow> (ERR_NO_MEMORY, aspace, ptr, w\<lparr>pmm := pmm_free sv page_list p'\<rparr>)
            | Some (k, a') \<Rightarrow>
                let r = region_list a' ! k;
                    ptr' = (case ptr of None \<Rightarrow> None | Some _ \<Rightarrow> Some (r_base r));
                    m' = map_pages sv arch_mmu_flags (r_base r) page_list (mmu w)
                in (NO_ERROR, attach_pages k page_list a', ptr', \<lparr>pmm = p', mmu = m'\<rparr>))"

subsection \<open>Mocked services for the scenarios\<close>

text \<open>
  Modelled from the spec: the mocked pmm and the mocked MMU of the testable properties.
  The pmm is its list of free page frames, handed out from the front; a contiguous
  request gets the run of consecutive frames at the front of the list, up to the
  number asked for. The MMU records the map calls it receives and reports success.
\<close>

definition mock_alloc_pages :: "uint \<Rightarrow> vm_page list \<Rightarrow> uint \<times> vm_page list \<times> vm_page list" where
  "mock_alloc_pages n free =
     (of_nat (length (take (unat n) free)), take (unat n) free, drop (unat n) free)"

fun contiguous_run :: "nat \<Rightarrow> vm_page list \<Rightarrow> vm_page list" where
  "contiguous_run n [] = []"
| "contiguous_run n (p # ps) =
     (if n = 0 then []
      else p # (case ps of [] \<Rightarrow> []
                | q # _ \<Rightarrow> if q = Suc p then contiguous_run (n - 1) ps else []))"

definition mock_alloc_contiguous ::
  "uint \<Rightarrow> uint8_t \<Rightarrow> vm_page list
     \<Rightarrow> uint \<times> paddr_t option \<times> vm_page list \<times> vm_page list" where
  "mock_alloc_contiguous n align_pow2 free =
     (let run = contiguous_run (unat n) free in
      (of_nat (length run),
       (case run of [] \<Rightarrow> None | p # _ \<Rightarrow> Some (of_nat p * PAGE_SIZE)),
       run, drop (length run) free))"

type_synonym mock_mmu = "(vaddr_t \<times> paddr_t \<times> uint \<times> uint) list"

definition mock_services :: "(vm_page list, mock_mmu) services" where
  "mock_services =
     \<lparr>malloc_ok = True,
      pmm_alloc_pages = mock_alloc_pages,
      pmm_alloc_contiguous = mock_alloc_contiguous,
      pmm_free = (\<lambda>pages free. pages @ free),
      page_to_address = (\<lambda>p. of_nat p * PAGE_SIZE),
      arch_mmu_map = (\<lambda>va pa count flags m. (0, m @ [(va, pa, count, flags)])),
      arch_mmu_query = (\<lambda>va m. None)\<rparr>"

text \<open>
  The kernel address space of the scenarios, \<open>[0x10000000, 0x10100000)\<close>, and the
  region that scenario 1 leaves in it.
\<close>

definition scenario_aspace :: vmm_aspace where
  "scenario_aspace = vmm_init 0x10000000 0x100000"

definition scenario_region :: vmm_region where
  "scenario_region =
     \<lparr>r_name = ''one'', r_base = 0x10000000, r_size = 0x2000,
      r_flags = VMM_REGION_FLAG_PHYSICAL, r_arch_mmu_flags = 0, r_page_list = [0, 1]\<rparr>"

definition scenario1_aspace :: vmm_aspace where
  "scenario1_aspace = scenario_aspace\<lparr>region_list := [scenario_region]\<rparr>"

definition empty_world :: "(vm_page list, mock_mmu) world" where
  "empty_world = \<lparr>pmm = [], mmu = []\<rparr>"

definition four_pages :: "(vm_page list, mock_mmu) world" where
  "four_pages = \<lparr>pmm = [0, 1, 2, 3], mmu = []\<rparr>"

text \<open>Scenario 5: four free page frames, no two of them adjacent.\<close>

definition scattered_pages :: "(vm_page list, mock_mmu) world" where
  "scattered_pages = \<lparr>pmm = [0, 2, 4, 6], mmu = []\<rparr>"

text \<open>
  A kernel address space that starts at address 0 and reaches the last pages of the
  address range, after the reservation of all of it but its top.
\<close>

definition low_aspace :: vmm_aspace where
  "low_aspace =
     \<lparr>a_name = ''kernel'', a_base = 0, a_size = 0xFFFFF000, a_flags = 0,
      region_list =
        [\<lparr>r_name = ''low'', r_base = 0, r_size = 0xFFFF1000,
          r_flags = VMM_REGION_FLAG_RESERVED, r_arch_mmu_flags = 0, r_page_list = []\<rparr>]\<rparr>"

text \<open>
  The same address space after three calls: the reservation of \<open>[0, 0xFFFF0000)\<close>, the
  reservation of the page \<open>[0xFFFF0000, 0xFFFF1000)\<close> after it, and a \<^verbatim>\<open>vmm_alloc\<close> of
  one page with 64 KiB alignment, whose region lies at address 0 at the end of the list.
\<close>

definition wrapped_aspace :: vmm_aspace where
  "wrapped_aspace =
     \<lparr>a_name = ''kernel'', a_base = 0, a_size = 0xFFFFF000, a_flags = 0,
      region_list =
        [\<lparr>r_name = ''low'', r_base = 0, r_size = 0xFFFF0000,
          r_flags = VMM_REGION_FLAG_RESERVED, r_arch_mmu_flags = 0, r_page_list = []\<rparr>,
         \<lparr>r_name = ''top'', r_base = 0xFFFF0000, r_size = 0x1000,
          r_flags = VMM_REGION_FLAG_RESERVED, r_arch_mmu_flags = 0, r_page_list = []\<rparr>,
         \<lparr>r_name = ''heap'', r_base = 0, r_size = 0x1000,
          r_flags = VMM_REGION_FLAG_PHYSICAL, r_arch_mmu_flags = 0, r_page_list = [0]\<rparr>]\<rparr>"

text \<open>An MMU driver whose every map call fails.\<close>

definition failing_map :: "vaddr_t \<Rightarrow> paddr_t \<Rightarrow> uint \<Rightarrow> uint \<Rightarrow> mock_mmu \<Rightarrow> int \<times> mock_mmu" where
  "failing_map va pa count flags m = (- 1, m)"

subsection \<open>The invariants of the data model\<close>

text \<open>
  An address space is well formed when it is not empty and its inclusive end
  \<open>base + size - 1\<close> does not wrap.
\<close>

definition aspace_ok :: "vmm_aspace \<Rightarrow> bool" where
  "aspace_ok a = (a_size a \<noteq> 0 \<and> a_base a \<le> a_base a + a_size a - 1)"

definition region_end :: "vmm_region \<Rightarrow> vaddr_t" where
  "region_end r = r_base r + r_size r - 1"

definition regions_sorted :: "vmm_aspace \<Rightarrow> bool" where
  "regions_sorted a = sorted_wrt (\<lambda>x y. r_base x < r_base y) (region_list a)"

definition regions_disjoint :: "vmm_aspace \<Rightarrow> bool" where
  "regions_disjoint a =
     sorted_wrt (\<lambda>x y. region_end x < r_base y \<or> region_end y < r_base x) (region_list a)"

definition regions_contained :: "vmm_aspace \<Rightarrow> bool" where
  "regions_contained a =
     list_all (\<lambda>r. is_region_inside_aspace a (r_base r) (r_size r)) (region_list a)"

definition regions_page_aligned :: "vmm_aspace \<Rightarrow> bool" where
  "regions_page_aligned a =
     list_all (\<lambda>r. IS_PAGE_ALIGNED (r_base r) \<and> IS_PAGE_ALIGNED (r_size r) \<and> r_size r \<noteq> 0)
       (region_list a)"

definition regions_nonempty :: "vmm_aspace \<Rightarrow> bool" where
  "regions_nonempty a = list_all (\<lambda>r. r_size r \<noteq> 0) (region_list a)"

text \<open>
  Invariants 1, 2 and 6 of the data model, with the part of invariant 3 they rest on
  (no region is empty).
\<close>

definition vmm_invariants :: "vmm_aspace \<Rightarrow> bool" where
  "vmm_invariants a =
     (aspace_ok a \<and> regions_sorted a \<and> regions_disjoint a \<and> regions_contained a \<and>
      regions_nonempty a)"

text \<open>The range \<open>[spot, spot + sz - 1]\<close> meets no region of the address space.\<close>

definition spot_free :: "vmm_aspace \<Rightarrow> vaddr_t \<Rightarrow> size_t \<Rightarrow> bool" where
  "spot_free a spot sz =
     list_all (\<lambda>r. region_end r < spot \<or> spot + sz - 1 < r_base r) (region_list a)"

text \<open>
  What \<^verbatim>\<open>alloc_spot\<close> is to find: a multiple of \<open>2 ^ k\<close> at which the range lies in the
  address space and meets no region.
\<close>

definition spot_valid :: "vmm_aspace \<Rightarrow> nat \<Rightarrow> size_t \<Rightarrow> vaddr_t \<Rightarrow> bool" where
  "spot_valid a k sz spot =
     (2 ^ k dvd unat spot \<and> is_region_inside_aspace a spot sz \<and> spot_free a spot sz)"

text \<open>
  What a caller sees of a call: the status, the address space, \<open>*ptr\<close> and the pmm.
  \<open>no_trace\<close> says that a call left the address space and the MMU as they were.
\<close>

definition call_result ::
  "status_t \<times> 'a \<times> vaddr_t option \<times> ('p, 'm) world
     \<Rightarrow> status_t \<times> 'a \<times> vaddr_t option \<times> 'p" where
  "call_result x = (case x of (st, a, ptr, w) \<Rightarrow> (st, a, ptr, pmm w))"

definition no_trace ::
  "'a \<Rightarrow> ('p, 'm) world \<Rightarrow> status_t \<times> 'a \<times> vaddr_t option \<times> ('p, 'm) world \<Rightarrow> bool" where
  "no_trace a w x = (case x of (st, a', ptr', w') \<Rightarrow> a' = a \<and> mmu w' = mmu w)"

text \<open>
  The address space holds a region with this base, this size and these pages attached.
\<close>

definition holds_region :: "vmm_aspace \<Rightarrow> vaddr_t \<Rightarrow> size_t \<Rightarrow> vm_page list \<Rightarrow> bool" where
  "holds_region a base sz pages =
     list_ex (\<lambda>r. r_base r = base \<and> r_size r = sz \<and> r_page_list r = pages) (region_list a)"

subsection \<open>Addresses as natural numbers\<close>

text \<open>
  The statements about placement are made over the natural numbers, where a range is
  its first address and the address after its last: \<open>[region_lo r, region_hi r)\<close> for a
  region and \<open>[aspace_lo a, aspace_hi a)\<close> for an address space. \<open>round_up k n\<close> is
  \<open>n\<close> rounded up to a multiple of \<open>2 ^ k\<close>.
\<close>

definition round_up :: "nat \<Rightarrow> nat \<Rightarrow> nat" where
  "round_up k n = ((n + 2 ^ k - 1) div 2 ^ k) * 2 ^ k"

definition region_lo :: "vmm_region \<Rightarrow> nat" where
  "region_lo r = unat (r_base r)"

definition region_hi :: "vmm_region \<Rightarrow> nat" where
  "region_hi r = unat (r_base r) + unat (r_size r)"

definition aspace_lo :: "vmm_aspace \<Rightarrow> nat" where
  "aspace_lo a = unat (a_base a)"

definition aspace_hi :: "vmm_aspace \<Rightarrow> nat" where
  "aspace_hi a = unat (a_base a) + unat (a_size a)"

text \<open>A region that is not empty and lies in the address space.\<close>

definition region_in :: "vmm_aspace \<Rightarrow> vmm_region \<Rightarrow> bool" where
  "region_in a r =
     (region_lo r < region_hi r \<and> aspace_lo a \<le> region_lo r \<and> region_hi r \<le> aspace_hi a)"

text \<open>
  The invariants in this form: each region ends where the next one starts or before,
  and every region is in the address space.
\<close>

definition regions_ok :: "vmm_aspace \<Rightarrow> bool" where
  "regions_ok a =
     (sorted_wrt (\<lambda>x y. region_hi x \<le> region_lo y) (region_list a) \<and>
      list_all (region_in a) (region_list a))"

text \<open>The \<open>n\<close> bytes from \<open>s\<close> meet none of the regions \<open>rs\<close>.\<close>

definition free_nat :: "vmm_region list \<Rightarrow> nat \<Rightarrow> nat \<Rightarrow> bool" where
  "free_nat rs s n = list_all (\<lambda>x. region_hi x \<le> s \<or> s + n \<le> region_lo x) rs"

text \<open>
  \<open>s\<close> is a multiple of \<open>2 ^ k\<close> at or after \<open>from\<close> at which \<open>n\<close> bytes fit in the
  address space and meet none of the regions \<open>rs\<close>.
\<close>

definition candidate ::
  "vmm_aspace \<Rightarrow> nat \<Rightarrow> nat \<Rightarrow> nat \<Rightarrow> vmm_region list \<Rightarrow> nat \<Rightarrow> bool" where
  "candidate a k n from rs s =
     (2 ^ k dvd s \<and> from \<le> s \<and> s + n \<le> aspace_hi a \<and> free_nat rs s n)"

text \<open>
  Position \<open>j\<close> is the place of \<open>n\<close> bytes at \<open>s\<close> in the list \<open>rs\<close>: the regions
  before it end at or before \<open>s\<close>, the others start at or after \<open>s + n\<close>.
\<close>

definition placed :: "vmm_region list \<Rightarrow> nat \<Rightarrow> nat \<Rightarrow> nat \<Rightarrow> bool" where
  "placed rs s n j =
     (j \<le> length rs \<and> list_all (\<lambda>x. region_hi x \<le> s) (take j rs) \<and>
      list_all (\<lambda>x. s + n \<le> region_lo x) (drop j rs))"

text \<open>
  What the loop of \<^verbatim>\<open>alloc_spot\<close> has found when it returns \<open>s\<close> and position \<open>j\<close>
  from the region \<open>r\<close> at position \<open>i\<close>, followed by \<open>rest\<close>: the least candidate
  after \<open>r\<close>, and its place in the list.
\<close>

definition spot_found ::
  "vmm_aspace \<Rightarrow> nat \<Rightarrow> nat \<Rightarrow> nat \<Rightarrow> vmm_region \<Rightarrow> vmm_region list \<Rightarrow> nat \<Rightarrow> nat \<Rightarrow> bool" where
  "spot_found a k n i r rest s j =
     (candidate a k n (region_hi r) rest s \<and>
      (\<forall>t. candidate a k n (region_hi r) rest t \<longrightarrow> s \<le> t) \<and>
      i < j \<and> j \<le> Suc i + length rest \<and>
      list_all (\<lambda>x. region_hi x \<le> s) (take (j - i) (r # rest)) \<and>
      list_all (\<lambda>x. s + n \<le> region_lo x) (drop (j - i) (r # rest)))"

section \<open>Properties\<close>

subsection \<open>Unsigned 32-bit arithmetic in the natural numbers\<close>

lemma u32_bound: "unat (x :: 32 word) < 4294967296"
  using unsigned_less [of x, where 'a = nat] by simp

lemma u32_add: "unat (x + y :: 32 word) =
  (if unat x + unat y < 4294967296 then unat x + unat y else unat x + unat y - 4294967296)"
  using unat_plus_if' [of x y] by simp

lemma u32_sub: "unat (x - y :: 32 word) =
  (if unat y \<le> unat x then unat x - unat y else unat x + 4294967296 - unat y)"
  using unat_sub_if_size [of x y] by (simp add: word_size)

lemmas u32 = word_le_nat_alt word_less_nat_alt u32_add u32_sub unat_0_iff [symmetric]
  word_unat_eq_iff

lemma add_wraps_iff: "(x + y < x) = (4294967296 \<le> unat x + unat y)" for x :: "32 word"
  using u32_bound [of x] u32_bound [of y]
  by (auto simp add: u32 split: if_splits)

lemma unat_last_byte:
  "s \<noteq> 0 \<Longrightarrow> unat x + unat s \<le> 4294967296 \<Longrightarrow>
     unat (x + s - 1 :: 32 word) = unat x + unat s - 1"
  using u32_bound [of x] u32_bound [of s]
  by (auto simp add: u32 split: if_splits)

lemma no_wrap_iff:
  "s \<noteq> 0 \<Longrightarrow> (x \<le> x + s - 1) = (unat x + unat s \<le> 4294967296)" for x :: "32 word"
  using u32_bound [of x] u32_bound [of s]
  by (auto simp add: u32 split: if_splits)

subsection \<open>The range utilities in the natural numbers\<close>

lemma aspace_ok_nat:
  "aspace_ok a = (0 < unat (a_size a) \<and> unat (a_base a) + unat (a_size a) \<le> 4294967296)"
  using no_wrap_iff [of "a_size a" "a_base a"]
  by (auto simp add: aspace_ok_def unat_gt_0)

lemma aspace_end_nat:
  "aspace_ok a \<Longrightarrow> unat (a_base a + a_size a - 1) = unat (a_base a) + unat (a_size a) - 1"
  using unat_last_byte [of "a_size a" "a_base a"]
  by (simp add: aspace_ok_nat unat_gt_0)

lemma is_inside_aspace_nat:
  "aspace_ok a \<Longrightarrow> is_inside_aspace a va =
     (unat (a_base a) \<le> unat va \<and> unat va < unat (a_base a) + unat (a_size a))"
  by (auto simp add: is_inside_aspace_def word_le_nat_alt aspace_end_nat aspace_ok_nat)

lemma is_region_inside_aspace_nat:
  assumes "aspace_ok a" "sz \<noteq> 0"
  shows "is_region_inside_aspace a va sz =
     (unat (a_base a) \<le> unat va \<and> unat va + unat sz \<le> unat (a_base a) + unat (a_size a))"
proof (cases "va \<le> va + sz - 1")
  case True
  then have nw: "unat va + unat sz \<le> 4294967296"
    using no_wrap_iff [OF assms(2)] by simp
  have "unat (va + sz - 1) = unat va + unat sz - 1"
    by (rule unat_last_byte [OF assms(2) nw])
  moreover have "0 < unat sz"
    using assms(2) by (simp add: unat_gt_0)
  ultimately show ?thesis
    using True assms
    by (auto simp add: is_region_inside_aspace_def is_inside_aspace_nat word_le_nat_alt
        word_less_nat_alt aspace_end_nat aspace_ok_nat)
next
  case False
  then have "\<not> unat va + unat sz \<le> 4294967296"
    using no_wrap_iff [OF assms(2)] by simp
  then show ?thesis
    using False assms
    by (auto simp add: is_region_inside_aspace_def not_le aspace_ok_nat)
qed

lemma region_no_wrap:
  "is_region_inside_aspace a va sz \<Longrightarrow> sz \<noteq> 0 \<Longrightarrow> va \<le> va + sz - 1"
  by (simp add: is_region_inside_aspace_def not_less split: if_splits)

text \<open>
  The length \<^verbatim>\<open>trim_to_aspace\<close> returns for a start inside the address space: the
  distance to the end of the address space as soon as \<open>offset + size\<close> reaches
  \<open>aspace->size - 1\<close>, the size otherwise.
\<close>

lemma trim_to_aspace_nat:
  assumes ok: "aspace_ok a" and ins: "is_inside_aspace a va" and nz: "sz \<noteq> 0"
  shows "unat (trim_to_aspace a va sz) =
     (if unat (a_size a) - 1 \<le> unat va - unat (a_base a) + unat sz
      then unat (a_size a) - (unat va - unat (a_base a)) else unat sz)"
proof -
  have B: "unat (a_base a) \<le> unat va" "unat va < unat (a_base a) + unat (a_size a)"
    using ins ok by (simp_all add: is_inside_aspace_nat)
  have A: "0 < unat (a_size a)" "unat (a_base a) + unat (a_size a) \<le> 4294967296"
    using ok by (simp_all add: aspace_ok_nat)
  define off where "off = va - a_base a"
  have off: "unat off = unat va - unat (a_base a)"
    unfolding off_def using B(1) by (simp add: unat_sub word_le_nat_alt)
  have a1: "unat (a_size a - 1) = unat (a_size a) - 1"
    using A(1) by (simp add: u32_sub)
  have a2: "unat (a_size a - off) = unat (a_size a) - unat off"
    using off B(2) by (simp add: u32_sub)
  show ?thesis
  proof (cases "off + sz < off")
    case True
    then have w: "4294967296 \<le> unat off + unat sz"
      by (simp add: add_wraps_iff)
    have "unat (off + (ULONG_MAX - off - 1)) = 4294967294"
      by (simp add: ULONG_MAX_def)
    then have "a_size a - 1 \<le> off + (ULONG_MAX - off - 1)"
      using a1 A u32_bound [of "a_size a"] by (simp add: word_le_nat_alt)
    then have "trim_to_aspace a va sz = a_size a - off"
      using True nz by (simp add: trim_to_aspace_def Let_def off_def)
    moreover have "unat (a_size a) - 1 \<le> unat va - unat (a_base a) + unat sz"
      using off w u32_bound [of "a_size a"] by linarith
    ultimately show ?thesis
      using a2 off by simp
  next
    case False
    then have nw: "unat off + unat sz < 4294967296"
      by (simp add: add_wraps_iff)
    then have s: "unat (off + sz) = unat off + unat sz"
      by (simp add: u32_add)
    have "trim_to_aspace a va sz = (if a_size a - 1 \<le> off + sz then a_size a - off else sz)"
      using False nz by (simp add: trim_to_aspace_def Let_def off_def)
    then show ?thesis
      using a1 a2 s off by (simp add: word_le_nat_alt)
  qed
qed

text \<open>Whatever is asked for, the trimmed range is not empty and lies in the address space.\<close>

lemma trim_to_aspace_fits:
  assumes ok: "aspace_ok a" and ins: "is_inside_aspace a va" and nz: "sz \<noteq> 0"
  shows "trim_to_aspace a va sz \<noteq> 0 \<and> is_region_inside_aspace a va (trim_to_aspace a va sz)"
proof -
  have B: "unat (a_base a) \<le> unat va" "unat va < unat (a_base a) + unat (a_size a)"
    using ins ok by (simp_all add: is_inside_aspace_nat)
  have "0 < unat sz"
    using nz by (simp add: unat_gt_0)
  then have pos: "0 < unat (trim_to_aspace a va sz)"
    using B by (simp add: trim_to_aspace_nat [OF assms])
  then have nz': "trim_to_aspace a va sz \<noteq> 0"
    by (simp add: unat_gt_0)
  have "unat va + unat (trim_to_aspace a va sz) \<le> unat (a_base a) + unat (a_size a)"
    using B unfolding trim_to_aspace_nat [OF assms]
    by (cases "unat (a_size a) - 1 \<le> unat va - unat (a_base a) + unat sz") simp_all
  then show ?thesis
    using nz' B by (simp add: is_region_inside_aspace_nat [OF ok nz'])
qed

text \<open>
  Away from the edge \<open>offset + size = aspace->size - 1\<close> the result is no larger than
  the size, and it is the size when the range fits.
\<close>

lemma trim_to_aspace_le:
  assumes ok: "aspace_ok a" and ins: "is_inside_aspace a va" and nz: "sz \<noteq> 0"
    and edge: "unat va - unat (a_base a) + unat sz \<noteq> unat (a_size a) - 1"
  shows "trim_to_aspace a va sz \<le> sz"
    and "is_region_inside_aspace a va sz \<Longrightarrow> trim_to_aspace a va sz = sz"
proof -
  have B: "unat (a_base a) \<le> unat va" "unat va < unat (a_base a) + unat (a_size a)"
    using ins ok by (simp_all add: is_inside_aspace_nat)
  show "trim_to_aspace a va sz \<le> sz"
    using B edge unfolding word_le_nat_alt trim_to_aspace_nat [OF ok ins nz]
    by (cases "unat (a_size a) - 1 \<le> unat va - unat (a_base a) + unat sz") simp_all
  show "trim_to_aspace a va sz = sz" if "is_region_inside_aspace a va sz"
  proof -
    have "unat va + unat sz \<le> unat (a_base a) + unat (a_size a)"
      using that by (simp add: is_region_inside_aspace_nat [OF ok nz])
    then have "unat (trim_to_aspace a va sz) = unat sz"
      using B edge unfolding trim_to_aspace_nat [OF ok ins nz]
      by (cases "unat (a_size a) - 1 \<le> unat va - unat (a_base a) + unat sz") simp_all
    then show ?thesis by (simp add: word_unat_eq_iff)
  qed
qed

lemma trim_to_aspace_cases:
  assumes ok: "aspace_ok a" and ins: "is_inside_aspace a va" and nz: "sz \<noteq> 0"
  shows "trim_to_aspace a va sz = sz \<or> trim_to_aspace a va sz = a_base a + a_size a - va"
proof (cases "unat (a_size a) - 1 \<le> unat va - unat (a_base a) + unat sz")
  case False
  then have "unat (trim_to_aspace a va sz) = unat sz"
    by (simp add: trim_to_aspace_nat [OF ok ins nz])
  then show ?thesis by (simp add: word_unat_eq_iff)
next
  case True
  have B: "unat (a_base a) \<le> unat va" "unat va < unat (a_base a) + unat (a_size a)"
    using ins ok by (simp_all add: is_inside_aspace_nat)
  have "unat (a_size a - (va - a_base a)) = unat (a_size a) - (unat va - unat (a_base a))"
    using B by (simp add: u32_sub)
  then have "unat (trim_to_aspace a va sz) = unat (a_size a - (va - a_base a))"
    using True by (simp add: trim_to_aspace_nat [OF ok ins nz])
  then have "trim_to_aspace a va sz = a_size a - (va - a_base a)"
    by (simp add: word_unat_eq_iff)
  then show ?thesis by simp
qed

subsection \<open>Rounding up to a power of two\<close>

lemma and_not_mask_word: "(w :: 32 word) AND NOT (mask k) = push_bit k (drop_bit k w)"
  by (rule bit_eqI) (auto simp add: bit_simps)

lemma unat_and_not_mask: "unat ((w :: 32 word) AND NOT (mask k)) = (unat w div 2 ^ k) * 2 ^ k"
proof -
  have "(unat w div 2 ^ k) * 2 ^ k \<le> unat w" by simp
  then have "(unat w div 2 ^ k) * 2 ^ k < 4294967296"
    by (rule le_less_trans) (rule u32_bound)
  then have lt: "(unat w div 2 ^ k) * 2 ^ k < 2 ^ 32"
    by simp
  have "unat (push_bit k (drop_bit k w)) = take_bit 32 (push_bit k (unat (drop_bit k w)))"
    by (simp add: unsigned_push_bit_eq)
  also have "\<dots> = take_bit 32 ((unat w div 2 ^ k) * 2 ^ k)"
    by (simp only: unat_drop_bit_eq) (simp add: push_bit_eq_mult drop_bit_eq_div)
  also have "\<dots> = (unat w div 2 ^ k) * 2 ^ k"
    using lt by (simp add: take_bit_nat_eq_self_iff)
  finally show ?thesis by (simp add: and_not_mask_word)
qed

lemma pow_lt: "k < 32 \<Longrightarrow> (2::nat) ^ k < 4294967296"
proof -
  assume "k < 32"
  then have "(2::nat) ^ k < 2 ^ 32" by (rule power_strict_increasing) simp
  then show ?thesis by simp
qed

lemma unat_pow: "k < 32 \<Longrightarrow> unat (2 ^ k :: 32 word) = 2 ^ k"
proof -
  assume k: "k < 32"
  have "(2 ^ k :: 32 word) = of_nat (2 ^ k)" by simp
  then have "unat (2 ^ k :: 32 word) = 2 ^ k mod 2 ^ 32"
    by (simp only: unat_of_nat) simp
  then show ?thesis using pow_lt [OF k] by simp
qed

lemma pow_dvd: "k < 32 \<Longrightarrow> (2::nat) ^ k dvd 4294967296"
proof -
  assume "k < 32"
  then have "(2::nat) ^ k dvd 2 ^ 32" by (intro le_imp_power_dvd) simp
  then show ?thesis by simp
qed

lemma round_up_ge: "n \<le> round_up k n"
proof -
  define d :: nat where "d = 2 ^ k"
  define a where "a = n + d - 1"
  have d: "0 < d" by (simp add: d_def)
  have "a = (a div d) * d + a mod d" by simp
  moreover have "a mod d < d" using d by simp
  ultimately have "a < (a div d) * d + d" by linarith
  then have "n \<le> (a div d) * d" using d unfolding a_def by linarith
  then show ?thesis by (simp add: round_up_def a_def d_def)
qed

lemma round_up_dvd: "2 ^ k dvd round_up k n"
  by (simp add: round_up_def)

lemma round_up_least:
  assumes "n \<le> m" "2 ^ k dvd m"
  shows "round_up k n \<le> m"
proof -
  obtain q where m: "m = 2 ^ k * q" using assms(2) by (auto simp add: dvd_def)
  have "(0::nat) < 2 ^ k" by simp
  then have "n + 2 ^ k - 1 < 2 ^ k * q + 2 ^ k" using assms(1) m by linarith
  then have "n + 2 ^ k - 1 < 2 ^ k * (q + 1)" by simp
  then have "(n + 2 ^ k - 1) div 2 ^ k < q + 1"
    by (simp add: less_mult_imp_div_less mult.commute)
  then have "(n + 2 ^ k - 1) div 2 ^ k \<le> q" by simp
  then show ?thesis unfolding round_up_def m by (simp add: mult.commute)
qed

lemma round_up_le: "round_up k n \<le> n + 2 ^ k - 1"
  by (simp add: round_up_def)

lemma ALIGN_nat:
  assumes k: "k < 32"
  shows "unat (ALIGN x (2 ^ k)) =
    (if round_up k (unat x) < 4294967296 then round_up k (unat x) else 0)"
proof -
  have m: "(2 ^ k - 1 :: 32 word) = mask k"
    by (simp add: mask_eq_exp_minus_1)
  have um: "unat (mask k :: 32 word) = 2 ^ k - 1"
    using unat_pow [OF k] by (simp add: u32_sub flip: m)
  have al: "unat (ALIGN x (2 ^ k)) = (unat (x + mask k) div 2 ^ k) * 2 ^ k"
    by (simp only: ALIGN_def ROUNDUP_def m unat_and_not_mask)
  have p: "(0::nat) < 2 ^ k" by simp
  show ?thesis
  proof (cases "unat x + (2 ^ k - 1) < 4294967296")
    case True
    then have "unat (x + mask k) = unat x + 2 ^ k - 1"
      using p by (simp add: u32_add um)
    then have "unat (ALIGN x (2 ^ k)) = round_up k (unat x)"
      using al by (simp add: round_up_def)
    moreover have "round_up k (unat x) < 4294967296"
      using round_up_le [of k "unat x"] True p by linarith
    ultimately show ?thesis by simp
  next
    case False
    then have y: "unat (x + mask k) = unat x + (2 ^ k - 1) - 4294967296"
      by (simp add: u32_add um)
    have "unat x + (2 ^ k - 1) - 4294967296 < 2 ^ k"
      using u32_bound [of x] p by linarith
    then have z: "unat (ALIGN x (2 ^ k)) = 0"
      using al y by simp
    have "4294967296 \<le> unat x + 2 ^ k - 1" using False p by linarith
    then have "4294967296 div 2 ^ k \<le> (unat x + 2 ^ k - 1) div 2 ^ k"
      by (rule div_le_mono)
    then have "4294967296 div 2 ^ k * 2 ^ k \<le> round_up k (unat x)"
      unfolding round_up_def by (rule mult_le_mono1)
    moreover have "4294967296 div 2 ^ k * 2 ^ k = (4294967296::nat)"
      using pow_dvd [OF k] by simp
    ultimately have "\<not> round_up k (unat x) < 4294967296" by simp
    then show ?thesis using z by simp
  qed
qed

subsection \<open>One step of the free-gap search\<close>

lemma aspace_hi_le: "aspace_ok a \<Longrightarrow> aspace_hi a \<le> 4294967296"
  by (simp add: aspace_ok_nat aspace_hi_def)

lemma unat_region_end:
  assumes "region_hi r \<le> 4294967296"
  shows "unat (r_base r + r_size r) = (if region_hi r < 4294967296 then region_hi r else 0)"
  using assms by (simp add: u32_add region_hi_def)

lemma round_up_0: "round_up k 0 = 0"
  by (simp add: round_up_def)

lemma round_up_limit: "k < 32 \<Longrightarrow> round_up k 4294967296 = 4294967296"
proof -
  assume k: "k < 32"
  have "round_up k 4294967296 \<le> 4294967296"
    by (rule round_up_least) (simp_all add: pow_dvd [OF k])
  then show ?thesis using round_up_ge [of 4294967296 k] by simp
qed

lemma unat_spot_after:
  assumes k: "k < 32" and hi: "region_hi r \<le> 4294967296"
  shows "unat (ALIGN (r_base r + r_size r) (2 ^ k)) =
     (if round_up k (region_hi r) < 4294967296 then round_up k (region_hi r) else 0)"
proof (cases "region_hi r < 4294967296")
  case True
  then show ?thesis by (simp add: ALIGN_nat [OF k] unat_region_end [OF hi])
next
  case False
  then have "region_hi r = 4294967296" using hi by simp
  then show ?thesis
    by (simp add: ALIGN_nat [OF k] unat_region_end [OF hi] round_up_0 round_up_limit [OF k])
qed

lemma spot_after_inside:
  assumes ok: "aspace_ok a" and base: "a_base a \<noteq> 0" and k: "k < 32" and r: "region_in a r"
  shows "is_inside_aspace a (ALIGN (r_base r + r_size r) (2 ^ k))
           = (round_up k (region_hi r) < aspace_hi a)"
    and "round_up k (region_hi r) < aspace_hi a \<Longrightarrow>
           unat (ALIGN (r_base r + r_size r) (2 ^ k)) = round_up k (region_hi r)"
proof -
  have E: "aspace_hi a \<le> 4294967296" by (rule aspace_hi_le [OF ok])
  have hi: "region_hi r \<le> 4294967296" using r E by (simp add: region_in_def)
  have B: "0 < aspace_lo a" using base by (simp add: aspace_lo_def unat_gt_0)
  have ge: "aspace_lo a \<le> round_up k (region_hi r)"
    using r round_up_ge [of "region_hi r" k] by (simp add: region_in_def)
  show "is_inside_aspace a (ALIGN (r_base r + r_size r) (2 ^ k))
           = (round_up k (region_hi r) < aspace_hi a)"
    using E B ge
    by (simp add: is_inside_aspace_nat [OF ok] unat_spot_after [OF k hi]
        aspace_lo_def aspace_hi_def)
  show "unat (ALIGN (r_base r + r_size r) (2 ^ k)) = round_up k (region_hi r)"
    if "round_up k (region_hi r) < aspace_hi a"
    using that E by (simp add: unat_spot_after [OF k hi])
qed

lemma tail_room:
  assumes ok: "aspace_ok a" and c: "unat spot < aspace_hi a" "0 < unat spot"
  shows "((a_base a + a_size a) - spot \<ge> sz) = (unat spot + unat sz \<le> aspace_hi a)"
proof -
  have E: "aspace_hi a \<le> 4294967296" by (rule aspace_hi_le [OF ok])
  have "unat (a_base a + a_size a) = (if aspace_hi a < 4294967296 then aspace_hi a else 0)"
    using E by (simp add: u32_add aspace_hi_def)
  then have "unat ((a_base a + a_size a) - spot) = aspace_hi a - unat spot"
    using c E by (simp add: u32_sub)
  then show ?thesis using c by (simp add: word_le_nat_alt) linarith
qed

lemma gap_room:
  assumes "unat spot < region_lo nxt"
  shows "(r_base nxt - spot \<ge> sz) = (unat spot + unat sz \<le> region_lo nxt)"
proof -
  have "unat (r_base nxt - spot) = region_lo nxt - unat spot"
    using assms by (simp add: u32_sub region_lo_def)
  then show ?thesis using assms by (simp add: word_le_nat_alt) linarith
qed

lemma walk_step_last:
  assumes ok: "aspace_ok a" and base: "a_base a \<noteq> 0" and k: "k < 32" and r: "region_in a r"
  shows "alloc_spot_walk a sz (2 ^ k) i [r] =
     (if round_up k (region_hi r) < aspace_hi a \<and>
         round_up k (region_hi r) + unat sz \<le> aspace_hi a
      then Some (ALIGN (r_base r + r_size r) (2 ^ k), Suc i) else None)"
proof (cases "round_up k (region_hi r) < aspace_hi a")
  case False
  then show ?thesis
    by (simp add: spot_after_inside(1) [OF ok base k r])
next
  case True
  have u: "unat (ALIGN (r_base r + r_size r) (2 ^ k)) = round_up k (region_hi r)"
    by (rule spot_after_inside(2) [OF ok base k r True])
  have "0 < region_hi r" using r by (simp add: region_in_def)
  then have pos: "0 < unat (ALIGN (r_base r + r_size r) (2 ^ k))"
    using round_up_ge [of "region_hi r" k] u by linarith
  show ?thesis
    using True tail_room [OF ok _ pos, of sz] u
    by (simp add: spot_after_inside(1) [OF ok base k r])
qed

lemma walk_step_cons:
  assumes ok: "aspace_ok a" and base: "a_base a \<noteq> 0" and k: "k < 32" and r: "region_in a r"
    and nz: "0 < unat sz"
  shows "alloc_spot_walk a sz (2 ^ k) i (r # nxt # rest) =
     (if \<not> round_up k (region_hi r) < aspace_hi a then None
      else if round_up k (region_hi r) + unat sz \<le> region_lo nxt
      then Some (ALIGN (r_base r + r_size r) (2 ^ k), Suc i)
      else alloc_spot_walk a sz (2 ^ k) (Suc i) (nxt # rest))"
proof (cases "round_up k (region_hi r) < aspace_hi a")
  case False
  then show ?thesis
    by (simp add: spot_after_inside(1) [OF ok base k r])
next
  case True
  have u: "unat (ALIGN (r_base r + r_size r) (2 ^ k)) = round_up k (region_hi r)"
    by (rule spot_after_inside(2) [OF ok base k r True])
  show ?thesis
  proof (cases "region_lo nxt \<le> round_up k (region_hi r)")
    case le: True
    then have "r_base nxt \<le> ALIGN (r_base r + r_size r) (2 ^ k)"
      using u by (simp add: word_le_nat_alt region_lo_def)
    moreover have "\<not> round_up k (region_hi r) + unat sz \<le> region_lo nxt"
      using le nz by linarith
    ultimately show ?thesis
      using True by (simp add: spot_after_inside(1) [OF ok base k r])
  next
    case False
    then have lt: "unat (ALIGN (r_base r + r_size r) (2 ^ k)) < region_lo nxt"
      using u by simp
    then have "\<not> r_base nxt \<le> ALIGN (r_base r + r_size r) (2 ^ k)"
      by (simp add: word_le_nat_alt region_lo_def)
    then show ?thesis
      using True gap_room [OF lt, of sz] u
      by (simp add: spot_after_inside(1) [OF ok base k r])
  qed
qed

subsection \<open>The free-gap search finds the first fit\<close>

text \<open>
  In an address space that does not start at address 0, a wrapped \<^verbatim>\<open>ALIGN\<close> gives
  address 0, which is outside, so the loop stops where the aligned addresses are
  exhausted.
\<close>

lemma candidate_ge:
  "candidate a k n (region_hi r) rest t \<Longrightarrow> round_up k (region_hi r) \<le> t"
  by (simp add: candidate_def round_up_least)

lemma alloc_spot_walk_spec:
  assumes ok: "aspace_ok a" and base: "a_base a \<noteq> 0" and k: "k < 32" and nz: "0 < unat sz"
  shows "sorted_wrt (\<lambda>x y. region_hi x \<le> region_lo y) (r # rest) \<Longrightarrow>
         list_all (region_in a) (r # rest) \<Longrightarrow>
         (case alloc_spot_walk a sz (2 ^ k) i (r # rest) of
            None \<Rightarrow> \<forall>t. \<not> candidate a k (unat sz) (region_hi r) rest t
          | Some (spot, j) \<Rightarrow> spot_found a k (unat sz) i r rest (unat spot) j)"
proof (induction rest arbitrary: r i)
  case Nil
  then have r: "region_in a r" by simp
  let ?c = "round_up k (region_hi r)"
  show ?case
  proof (cases "?c < aspace_hi a \<and> ?c + unat sz \<le> aspace_hi a")
    case True
    then have u: "unat (ALIGN (r_base r + r_size r) (2 ^ k)) = ?c"
      using spot_after_inside(2) [OF ok base k r] by simp
    have "spot_found a k (unat sz) i r [] ?c (Suc i)"
      using True round_up_ge [of "region_hi r" k]
      by (auto simp add: spot_found_def candidate_def free_nat_def round_up_dvd round_up_least)
    then show ?thesis
      using True u by (simp add: walk_step_last [OF ok base k r] del: alloc_spot_walk.simps)
  next
    case False
    have "\<not> candidate a k (unat sz) (region_hi r) [] t" for t
    proof
      assume t: "candidate a k (unat sz) (region_hi r) [] t"
      then have "?c \<le> t" by (rule candidate_ge)
      moreover have "t + unat sz \<le> aspace_hi a" using t by (simp add: candidate_def)
      ultimately show False using False nz by linarith
    qed
    then show ?thesis
      using False by (auto simp add: walk_step_last [OF ok base k r] simp del: alloc_spot_walk.simps)
  qed
next
  case (Cons nxt rest)
  then have r: "region_in a r" and n: "region_in a nxt"
    and rn: "region_hi r \<le> region_lo nxt"
    and later: "\<forall>x \<in> set rest. region_hi nxt \<le> region_lo x"
    and sorted': "sorted_wrt (\<lambda>x y. region_hi x \<le> region_lo y) (nxt # rest)"
    and all': "list_all (region_in a) (nxt # rest)"
    by simp_all
  let ?c = "round_up k (region_hi r)"
  let ?S = "unat sz"
  have cge: "region_hi r \<le> ?c" by (rule round_up_ge)
  have nlt: "region_lo nxt < region_hi nxt" "region_hi nxt \<le> aspace_hi a"
    using n by (simp_all add: region_in_def)
  note step = walk_step_cons [OF ok base k r nz, of i nxt rest]
  show ?case
  proof (cases "?c < aspace_hi a")
    case False
    have "\<not> candidate a k ?S (region_hi r) (nxt # rest) t" for t
    proof
      assume t: "candidate a k ?S (region_hi r) (nxt # rest) t"
      then have "?c \<le> t" by (rule candidate_ge)
      moreover have "t + ?S \<le> aspace_hi a" using t by (simp add: candidate_def)
      ultimately show False using False nz by linarith
    qed
    then show ?thesis using False by (simp add: step del: alloc_spot_walk.simps)
  next
    case inside: True
    then have u: "unat (ALIGN (r_base r + r_size r) (2 ^ k)) = ?c"
      using spot_after_inside(2) [OF ok base k r] by simp
    show ?thesis
    proof (cases "?c + ?S \<le> region_lo nxt")
      case True
      have "list_all (\<lambda>x. ?c + ?S \<le> region_lo x) rest"
        using later True nlt by (auto simp add: list_all_iff) 
      then have "spot_found a k ?S i r (nxt # rest) ?c (Suc i)"
        using True cge nlt
        by (auto simp add: spot_found_def candidate_def free_nat_def round_up_dvd
            round_up_least list_all_iff)
      then show ?thesis
        using True inside u by (simp add: step del: alloc_spot_walk.simps)
    next
      case False
      have eq: "alloc_spot_walk a sz (2 ^ k) i (r # nxt # rest)
                  = alloc_spot_walk a sz (2 ^ k) (Suc i) (nxt # rest)"
        using False inside by (simp add: step del: alloc_spot_walk.simps)
      have IH: "case alloc_spot_walk a sz (2 ^ k) (Suc i) (nxt # rest) of
            None \<Rightarrow> \<forall>t. \<not> candidate a k ?S (region_hi nxt) rest t
          | Some (spot, j) \<Rightarrow> spot_found a k ?S (Suc i) nxt rest (unat spot) j"
        by (rule Cons.IH [OF sorted' all'])
      have push: "candidate a k ?S (region_hi nxt) rest t"
        if t: "candidate a k ?S (region_hi r) (nxt # rest) t" for t
      proof -
        have "?c \<le> t" using t by (rule candidate_ge)
        then have "\<not> t + ?S \<le> region_lo nxt" using False by linarith
        then have "region_hi nxt \<le> t"
          using t by (simp add: candidate_def free_nat_def)
        then show ?thesis using t by (simp add: candidate_def free_nat_def)
      qed
      show ?thesis
      proof (cases "alloc_spot_walk a sz (2 ^ k) (Suc i) (nxt # rest)")
        case None
        then have "\<forall>t. \<not> candidate a k ?S (region_hi nxt) rest t" using IH by (simp del: alloc_spot_walk.simps)
        then have "\<forall>t. \<not> candidate a k ?S (region_hi r) (nxt # rest) t"
          using push by blast
        then show ?thesis using None eq by (simp del: alloc_spot_walk.simps)
      next
        case (Some res)
        obtain spot j where res: "res = (spot, j)" by (cases res)
        have f: "spot_found a k ?S (Suc i) nxt rest (unat spot) j"
          using IH Some res by (simp del: alloc_spot_walk.simps)
        let ?s = "unat spot"
        have c1: "candidate a k ?S (region_hi nxt) rest ?s"
          and min: "\<forall>t. candidate a k ?S (region_hi nxt) rest t \<longrightarrow> ?s \<le> t"
          and j: "Suc i < j" "j \<le> Suc (Suc i) + length rest"
          and before: "list_all (\<lambda>x. region_hi x \<le> ?s) (take (j - Suc i) (nxt # rest))"
          and after: "list_all (\<lambda>x. ?s + ?S \<le> region_lo x) (drop (j - Suc i) (nxt # rest))"
          using f by (simp_all add: spot_found_def)
        have hs: "region_hi nxt \<le> ?s" using c1 by (simp add: candidate_def)
        have c2: "candidate a k ?S (region_hi r) (nxt # rest) ?s"
          using c1 hs rn nlt by (simp add: candidate_def free_nat_def)
        have min2: "\<forall>t. candidate a k ?S (region_hi r) (nxt # rest) t \<longrightarrow> ?s \<le> t"
          using min push by blast
        have ji: "j - i = Suc (j - Suc i)" using j by linarith
        have "spot_found a k ?S i r (nxt # rest) ?s j"
          using c2 min2 j before after hs rn nlt
          by (simp add: spot_found_def ji)
        then show ?thesis using Some res eq by (simp del: alloc_spot_walk.simps)
      qed
    qed
  qed
qed

lemma spot_base_inside:
  assumes ok: "aspace_ok a" and base: "a_base a \<noteq> 0" and k: "k < 32"
  shows "is_inside_aspace a (ALIGN (a_base a) (2 ^ k)) = (round_up k (aspace_lo a) < aspace_hi a)"
    and "round_up k (aspace_lo a) < aspace_hi a \<Longrightarrow>
           unat (ALIGN (a_base a) (2 ^ k)) = round_up k (aspace_lo a)"
proof -
  have E: "aspace_hi a \<le> 4294967296" by (rule aspace_hi_le [OF ok])
  have B: "0 < aspace_lo a" using base by (simp add: aspace_lo_def unat_gt_0)
  have ge: "aspace_lo a \<le> round_up k (aspace_lo a)" by (rule round_up_ge)
  show "is_inside_aspace a (ALIGN (a_base a) (2 ^ k)) = (round_up k (aspace_lo a) < aspace_hi a)"
    using E B ge
    by (simp add: is_inside_aspace_nat [OF ok] ALIGN_nat [OF k] aspace_lo_def aspace_hi_def)
  show "unat (ALIGN (a_base a) (2 ^ k)) = round_up k (aspace_lo a)"
    if "round_up k (aspace_lo a) < aspace_hi a"
    using that E by (simp add: ALIGN_nat [OF k] aspace_lo_def)
qed

lemma front_room:
  assumes "0 < unat sz"
  shows "(spot < r_base r \<and> r_base r - spot \<ge> sz) = (unat spot + unat sz \<le> region_lo r)"
proof (cases "unat spot < region_lo r")
  case True
  then show ?thesis
    using gap_room [OF True, of sz] by (simp add: word_less_nat_alt region_lo_def)
next
  case False
  then show ?thesis
    using assms by (simp add: word_less_nat_alt region_lo_def)
qed

lemma unat_minus_one_32: "unat (- 1 :: 32 word) = 4294967295"
  by (simp add: unsigned_minus_1_eq_mask mask_eq_exp_minus_1)

lemma alloc_spot_unfold:
  "alloc_spot a sz align_pow2 =
     (let spot = ALIGN (a_base a) (2 ^ max (unat align_pow2) PAGE_SIZE_SHIFT) in
      if \<not> is_inside_aspace a spot then (- 1, None)
      else
        (case region_list a of
           r # _ \<Rightarrow>
             if spot < r_base r \<and> r_base r - spot \<ge> sz then (spot, Some 0)
             else
               (case alloc_spot_walk a sz (2 ^ max (unat align_pow2) PAGE_SIZE_SHIFT) 0
                       (region_list a) of
                  Some (s, k) \<Rightarrow> (s, Some k)
                | None \<Rightarrow> (- 1, None))
         | [] \<Rightarrow>
             if a_base a + a_size a - spot \<ge> sz then (spot, Some 0)
             else (- 1, None)))"
proof (cases "unat align_pow2 < PAGE_SIZE_SHIFT")
  case True
  then have mx: "max (unat align_pow2) PAGE_SIZE_SHIFT = PAGE_SIZE_SHIFT" by simp
  show ?thesis unfolding alloc_spot_def mx using True by (simp add: push_bit_eq_mult Let_def)
next
  case False
  then have mx: "max (unat align_pow2) PAGE_SIZE_SHIFT = unat align_pow2" by simp
  show ?thesis unfolding alloc_spot_def mx using False by (simp add: push_bit_eq_mult Let_def)
qed

lemma aligned_not_minus_one:
  assumes "2 ^ k dvd unat (spot :: 32 word)" "0 < k"
  shows "spot \<noteq> - 1"
proof
  assume "spot = - 1"
  then have "unat spot = 4294967295" by (simp add: unat_minus_one_32)
  moreover have "2 dvd unat spot"
    using assms by (metis dvd_power dvd_trans)
  ultimately show False by simp
qed

lemma alloc_spot_spec:
  assumes ok: "aspace_ok a" and base: "a_base a \<noteq> 0" and al: "unat align_pow2 < 32"
    and nz: "0 < unat sz"
    and sorted: "sorted_wrt (\<lambda>x y. region_hi x \<le> region_lo y) (region_list a)"
    and all_in: "list_all (region_in a) (region_list a)"
  defines "k \<equiv> max (unat align_pow2) PAGE_SIZE_SHIFT"
  shows "case alloc_spot a sz align_pow2 of
           (spot, before) \<Rightarrow>
             if spot = - 1
             then before = None \<and>
                  (\<forall>t. \<not> candidate a k (unat sz) (aspace_lo a) (region_list a) t)
             else candidate a k (unat sz) (aspace_lo a) (region_list a) (unat spot) \<and>
                  (\<forall>t. candidate a k (unat sz) (aspace_lo a) (region_list a) t \<longrightarrow> unat spot \<le> t) \<and>
                  (\<exists>j. before = Some j \<and> placed (region_list a) (unat spot) (unat sz) j)"
proof -
  let ?S = "unat sz"
  let ?rs = "region_list a"
  let ?c = "round_up k (aspace_lo a)"
  let ?spot0 = "ALIGN (a_base a) (2 ^ k)"
  have k: "k < 32" "0 < k"
    using al by (simp_all add: k_def PAGE_SIZE_SHIFT_def)
  note unfold = alloc_spot_unfold [of a sz align_pow2, folded k_def]
  have B: "0 < aspace_lo a" using base by (simp add: aspace_lo_def unat_gt_0)
  have cge: "aspace_lo a \<le> ?c" by (rule round_up_ge)
  have ge: "?c \<le> t" if "candidate a k ?S (aspace_lo a) rs t" for t rs
    using that by (simp add: candidate_def round_up_least)
  note ins = spot_base_inside [OF ok base k(1)]
  show ?thesis
  proof (cases "?c < aspace_hi a")
    case False
    have "\<not> candidate a k ?S (aspace_lo a) ?rs t" for t
    proof
      assume t: "candidate a k ?S (aspace_lo a) ?rs t"
      then have "t + ?S \<le> aspace_hi a" by (simp add: candidate_def)
      then show False using ge [OF t] False nz by linarith
    qed
    then show ?thesis
      using False by (simp add: unfold Let_def ins(1))
  next
    case inside: True
    then have u: "unat ?spot0 = ?c" by (rule ins(2))
    have pos: "0 < unat ?spot0" using u B cge by linarith
    have good: "?spot0 \<noteq> - 1"
      by (rule aligned_not_minus_one [OF _ k(2)]) (simp add: u round_up_dvd)
    show ?thesis
    proof (cases ?rs)
      case Nil
      show ?thesis
      proof (cases "?c + ?S \<le> aspace_hi a")
        case True
        have "candidate a k ?S (aspace_lo a) [] ?c"
          using True cge by (simp add: candidate_def free_nat_def round_up_dvd)
        then show ?thesis
          using True inside Nil u good ge tail_room [OF ok _ pos, of sz]
          by (simp add: unfold Let_def ins(1) placed_def)
      next
        case False
        have "\<not> candidate a k ?S (aspace_lo a) [] t" for t
        proof
          assume t: "candidate a k ?S (aspace_lo a) [] t"
          then have "t + ?S \<le> aspace_hi a" by (simp add: candidate_def)
          then show False using ge [OF t] False by linarith
        qed
        then show ?thesis
          using False inside Nil u tail_room [OF ok _ pos, of sz]
          by (simp add: unfold Let_def ins(1))
      qed
    next
      case (Cons r rest)
      have r: "region_in a r" and rest_sorted: "\<forall>x \<in> set rest. region_hi r \<le> region_lo x"
        using all_in sorted Cons by simp_all
      have rlt: "aspace_lo a \<le> region_lo r" "region_lo r < region_hi r"
        "region_hi r \<le> aspace_hi a"
        using r by (simp_all add: region_in_def)
      show ?thesis
      proof (cases "?c + ?S \<le> region_lo r")
        case True
        have "list_all (\<lambda>x. ?c + ?S \<le> region_lo x) (r # rest)"
          using True rest_sorted rlt by (auto simp add: list_all_iff)
        then have "candidate a k ?S (aspace_lo a) (r # rest) ?c \<and> placed (r # rest) ?c ?S 0"
          using True cge rlt
          by (auto simp add: candidate_def free_nat_def round_up_dvd placed_def list_all_iff)
        then show ?thesis
          using True inside Cons u good ge front_room [OF nz, of ?spot0 r]
          by (simp add: unfold Let_def ins(1))
      next
        case False
        have push: "candidate a k ?S (region_hi r) rest t"
          if t: "candidate a k ?S (aspace_lo a) (r # rest) t" for t
        proof -
          have "\<not> t + ?S \<le> region_lo r" using ge [OF t] False by linarith
          then have "region_hi r \<le> t" using t by (simp add: candidate_def free_nat_def)
          then show ?thesis using t by (simp add: candidate_def free_nat_def)
        qed
        have walk: "case alloc_spot_walk a sz (2 ^ k) 0 (r # rest) of
            None \<Rightarrow> \<forall>t. \<not> candidate a k ?S (region_hi r) rest t
          | Some (spot, j) \<Rightarrow> spot_found a k ?S 0 r rest (unat spot) j"
          using sorted all_in unfolding Cons
          by (rule alloc_spot_walk_spec [OF ok base k(1) nz])
        have eq: "alloc_spot a sz align_pow2 =
            (case alloc_spot_walk a sz (2 ^ k) 0 (r # rest) of
               Some (s, j) \<Rightarrow> (s, Some j) | None \<Rightarrow> (- 1, None))"
        proof -
          have "\<not> (?spot0 < r_base r \<and> r_base r - ?spot0 \<ge> sz)"
            using False u front_room [OF nz, of ?spot0 r] by simp
          then show ?thesis
            using inside Cons
            by (auto simp add: unfold Let_def ins(1) simp del: alloc_spot_walk.simps)
        qed
        show ?thesis
        proof (cases "alloc_spot_walk a sz (2 ^ k) 0 (r # rest)")
          case None
          then have "\<forall>t. \<not> candidate a k ?S (region_hi r) rest t" using walk by simp
          then have "\<forall>t. \<not> candidate a k ?S (aspace_lo a) (r # rest) t" using push by blast
          then show ?thesis using None eq Cons by simp
        next
          case (Some res)
          obtain spot j where res: "res = (spot, j)" by (cases res)
          have f: "spot_found a k ?S 0 r rest (unat spot) j"
            using walk Some res by simp
          let ?s = "unat spot"
          have c1: "candidate a k ?S (region_hi r) rest ?s"
            and min: "\<forall>t. candidate a k ?S (region_hi r) rest t \<longrightarrow> ?s \<le> t"
            and pl: "placed (r # rest) ?s ?S j"
            using f by (simp_all add: spot_found_def placed_def)
          have hs: "region_hi r \<le> ?s" using c1 by (simp add: candidate_def)
          have c2: "candidate a k ?S (aspace_lo a) (r # rest) ?s"
            using c1 hs rlt by (simp add: candidate_def free_nat_def)
          have min2: "\<forall>t. candidate a k ?S (aspace_lo a) (r # rest) t \<longrightarrow> ?s \<le> t"
            using min push by blast
          have "spot \<noteq> - 1"
            by (rule aligned_not_minus_one [OF _ k(2)]) (use c1 in \<open>simp add: candidate_def\<close>)
          then show ?thesis
            using c2 min2 pl Some res eq Cons by simp
        qed
      qed
    qed
  qed
qed

lemma region_in_iff:
  assumes ok: "aspace_ok a"
  shows "region_in a r = (is_region_inside_aspace a (r_base r) (r_size r) \<and> r_size r \<noteq> 0)"
proof (cases "r_size r = 0")
  case True
  then show ?thesis by (simp add: region_in_def region_lo_def region_hi_def)
next
  case False
  then have "0 < unat (r_size r)" by (simp add: unat_gt_0)
  then show ?thesis
    using False
    by (auto simp add: region_in_def region_lo_def region_hi_def aspace_lo_def aspace_hi_def
        is_region_inside_aspace_nat [OF ok False])
qed

lemma unat_region_end_incl:
  assumes ok: "aspace_ok a" and r: "region_in a r"
  shows "unat (region_end r) = region_hi r - 1"
proof -
  have "region_hi r \<le> 4294967296"
    using r aspace_hi_le [OF ok] by (simp add: region_in_def)
  moreover have "r_size r \<noteq> 0"
    using r by (simp add: region_in_iff [OF ok])
  ultimately show ?thesis
    by (simp add: region_end_def region_hi_def unat_last_byte)
qed

lemma before_iff:
  assumes ok: "aspace_ok a" and x: "region_in a x" and y: "region_in a y"
  shows "(r_base x < r_base y \<and> (region_end x < r_base y \<or> region_end y < r_base x))
           = (region_hi x \<le> region_lo y)"
proof -
  have "region_lo x < region_hi x" "region_lo y < region_hi y"
    using x y by (simp_all add: region_in_def)
  then show ?thesis
    by (auto simp add: word_less_nat_alt unat_region_end_incl [OF ok x]
        unat_region_end_incl [OF ok y] region_lo_def)
qed

lemma sorted_disjoint_iff:
  assumes ok: "aspace_ok a"
  shows "list_all (region_in a) rs \<Longrightarrow>
     (sorted_wrt (\<lambda>x y. r_base x < r_base y) rs \<and>
      sorted_wrt (\<lambda>x y. region_end x < r_base y \<or> region_end y < r_base x) rs)
       = sorted_wrt (\<lambda>x y. region_hi x \<le> region_lo y) rs"
proof (induction rs)
  case Nil
  then show ?case by simp
next
  case (Cons r rs)
  then have r: "region_in a r" and rs: "list_all (region_in a) rs" by simp_all
  have "(\<forall>y \<in> set rs. r_base r < r_base y) \<and>
        (\<forall>y \<in> set rs. region_end r < r_base y \<or> region_end y < r_base r)
          \<longleftrightarrow> (\<forall>y \<in> set rs. region_hi r \<le> region_lo y)"
    using before_iff [OF ok r] rs by (auto simp add: list_all_iff)
  then show ?case using Cons.IH [OF rs] by auto
qed

lemma regions_ok_iff:
  assumes ok: "aspace_ok a"
  shows "regions_ok a =
     (regions_sorted a \<and> regions_disjoint a \<and> regions_contained a \<and> regions_nonempty a)"
proof -
  have in_iff: "list_all (region_in a) (region_list a)
      = (regions_contained a \<and> regions_nonempty a)"
    by (auto simp add: regions_contained_def regions_nonempty_def list_all_iff
        region_in_iff [OF ok])
  show ?thesis
  proof (cases "list_all (region_in a) (region_list a)")
    case True
    then show ?thesis
      using sorted_disjoint_iff [OF ok True] in_iff
      by (simp add: regions_ok_def regions_sorted_def regions_disjoint_def)
  next
    case False
    then show ?thesis using in_iff by (auto simp add: regions_ok_def)
  qed
qed

lemma spot_valid_iff:
  assumes ok: "aspace_ok a" and nz: "sz \<noteq> 0" and all_in: "list_all (region_in a) (region_list a)"
  shows "spot_valid a k sz t = candidate a k (unat sz) (aspace_lo a) (region_list a) (unat t)"
proof (cases "is_region_inside_aspace a t sz")
  case False
  then show ?thesis
    by (auto simp add: spot_valid_def candidate_def is_region_inside_aspace_nat [OF ok nz]
        aspace_lo_def aspace_hi_def)
next
  case True
  then have fit: "aspace_lo a \<le> unat t" "unat t + unat sz \<le> aspace_hi a"
    by (simp_all add: is_region_inside_aspace_nat [OF ok nz] aspace_lo_def aspace_hi_def)
  have "unat t + unat sz \<le> 4294967296" using fit aspace_hi_le [OF ok] by linarith
  then have last: "unat (t + sz - 1) = unat t + unat sz - 1"
    by (rule unat_last_byte [OF nz])
  have pos: "0 < unat sz" using nz by (simp add: unat_gt_0)
  have "(region_end x < t \<or> t + sz - 1 < r_base x)
          = (region_hi x \<le> unat t \<or> unat t + unat sz \<le> region_lo x)"
    if "region_in a x" for x
  proof -
    have "region_lo x < region_hi x" using that by (simp add: region_in_def)
    then show ?thesis
      using pos
      by (auto simp add: word_less_nat_alt unat_region_end_incl [OF ok that] last region_lo_def)
  qed
  then have "spot_free a t sz = free_nat (region_list a) (unat t) (unat sz)"
    using all_in by (auto simp add: spot_free_def free_nat_def list_all_iff)
  then show ?thesis
    using True fit by (simp add: spot_valid_def candidate_def)
qed

theorem alloc_spot_first_fit:
  assumes ok: "aspace_ok a" and base: "a_base a \<noteq> 0" and al: "unat align_pow2 < 32"
    and nz: "sz \<noteq> 0"
    and inv: "regions_sorted a" "regions_disjoint a" "regions_contained a" "regions_nonempty a"
  shows "case alloc_spot a sz align_pow2 of
           (spot, before) \<Rightarrow>
             if spot = - 1
             then \<forall>t. \<not> spot_valid a (max (unat align_pow2) PAGE_SIZE_SHIFT) sz t
             else spot_valid a (max (unat align_pow2) PAGE_SIZE_SHIFT) sz spot \<and>
                  (\<forall>t. spot_valid a (max (unat align_pow2) PAGE_SIZE_SHIFT) sz t \<longrightarrow> spot \<le> t)"
proof -
  have rok: "regions_ok a" using inv by (simp add: regions_ok_iff [OF ok])
  then have sorted: "sorted_wrt (\<lambda>x y. region_hi x \<le> region_lo y) (region_list a)"
    and all_in: "list_all (region_in a) (region_list a)"
    by (simp_all add: regions_ok_def)
  have pos: "0 < unat sz" using nz by (simp add: unat_gt_0)
  note valid = spot_valid_iff [OF ok nz all_in]
  obtain spot before where res: "alloc_spot a sz align_pow2 = (spot, before)"
    by (cases "alloc_spot a sz align_pow2")
  show ?thesis
    using alloc_spot_spec [OF ok base al pos sorted all_in]
    by (auto simp add: res valid word_le_nat_alt)
qed

subsection \<open>Insertion keeps the invariants\<close>

lemma list_add_after_ok:
  assumes sorted: "sorted_wrt (\<lambda>x y. region_hi x \<le> region_lo y) rs"
    and all_in: "list_all (region_in a) rs"
    and pl: "placed rs (region_lo r) n j"
    and hi: "region_hi r = region_lo r + n"
    and r: "region_in a r"
  shows "sorted_wrt (\<lambda>x y. region_hi x \<le> region_lo y) (list_add_after j r rs) \<and>
         list_all (region_in a) (list_add_after j r rs)"
proof -
  have before: "\<forall>x \<in> set (take j rs). region_hi x \<le> region_lo r"
    and after: "\<forall>x \<in> set (drop j rs). region_hi r \<le> region_lo x"
    using pl hi by (simp_all add: placed_def list_all_iff)
  have "sorted_wrt (\<lambda>x y. region_hi x \<le> region_lo y) (take j rs)"
    "sorted_wrt (\<lambda>x y. region_hi x \<le> region_lo y) (drop j rs)"
    using sorted by (simp_all add: sorted_wrt_take sorted_wrt_drop)
  moreover have "\<forall>x \<in> set (take j rs). \<forall>y \<in> set (drop j rs). region_hi x \<le> region_lo y"
    using before after hi by fastforce
  ultimately have "sorted_wrt (\<lambda>x y. region_hi x \<le> region_lo y) (take j rs @ r # drop j rs)"
    using before after by (simp add: sorted_wrt_append)
  moreover have "list_all (region_in a) (take j rs @ r # drop j rs)"
    using all_in r
    by (auto simp add: list_all_iff dest: in_set_takeD in_set_dropD)
  ultimately show ?thesis by (simp add: list_add_after_def)
qed

lemma add_region_walk_placed:
  assumes ok: "aspace_ok a" and r: "region_in a r"
  shows "sorted_wrt (\<lambda>x y. region_hi x \<le> region_lo y) xs \<Longrightarrow>
         list_all (region_in a) xs \<Longrightarrow>
         add_region_walk r (region_end r) i xs = Some j \<Longrightarrow>
         i < j \<and> j - i \<le> length xs \<and>
         list_all (\<lambda>x. region_hi x \<le> region_lo r) (take (j - i) xs) \<and>
         list_all (\<lambda>x. region_hi r \<le> region_lo x) (drop (j - i) xs)"
proof (induction xs arbitrary: i)
  case Nil
  then show ?case by simp
next
  case (Cons lst rest)
  have l: "region_in a lst" and rest_in: "list_all (region_in a) rest"
    and sorted': "sorted_wrt (\<lambda>x y. region_hi x \<le> region_lo y) rest"
    and later: "\<forall>x \<in> set rest. region_hi lst \<le> region_lo x"
    using Cons.prems by simp_all
  have rlt: "region_lo r < region_hi r" using r by (simp add: region_in_def)
  have after_lst: "(r_base r > r_base lst + r_size lst - 1) = (region_hi lst \<le> region_lo r)"
    using l unat_region_end_incl [OF ok l]
    by (auto simp add: word_less_nat_alt region_end_def region_lo_def region_in_def)
  have before_nxt: "(region_end r < r_base x) = (region_hi r \<le> region_lo x)" for x
    using rlt unat_region_end_incl [OF ok r]
    by (auto simp add: word_less_nat_alt region_lo_def)
  show ?case
  proof (cases "r_base r > r_base lst + r_size lst - 1 \<and>
         (case rest of [] \<Rightarrow> True | nxt # _ \<Rightarrow> region_end r < r_base nxt)")
    case True
    then have j: "j = Suc i" using Cons.prems(3) by simp
    have "list_all (\<lambda>x. region_hi r \<le> region_lo x) rest"
    proof (cases rest)
      case Nil
      then show ?thesis by simp
    next
      case (Cons nxt rest')
      then have "region_hi r \<le> region_lo nxt" using True before_nxt by simp
      moreover have "region_lo nxt < region_hi nxt"
        using rest_in Cons by (simp add: region_in_def)
      moreover have "\<forall>x \<in> set rest'. region_hi nxt \<le> region_lo x"
        using sorted' Cons by simp
      ultimately show ?thesis using Cons by (auto simp add: list_all_iff)
    qed
    then show ?thesis using True after_lst j by simp
  next
    case False
    then have rec: "add_region_walk r (region_end r) (Suc i) rest = Some j"
      using Cons.prems(3) by (simp split: if_splits)
    have IH: "Suc i < j \<and> j - Suc i \<le> length rest \<and>
         list_all (\<lambda>x. region_hi x \<le> region_lo r) (take (j - Suc i) rest) \<and>
         list_all (\<lambda>x. region_hi r \<le> region_lo x) (drop (j - Suc i) rest)"
      by (rule Cons.IH [OF sorted' rest_in rec])
    then have ji: "j - i = Suc (j - Suc i)" and pos: "0 < j - Suc i" by linarith+
    obtain nxt rest' where rest: "rest = nxt # rest'"
      using IH pos by (cases rest) auto
    obtain m where m: "j - Suc i = Suc m" using pos by (cases "j - Suc i") auto
    have "region_hi nxt \<le> region_lo r" using IH rest m by simp
    moreover have "region_hi lst \<le> region_lo nxt" using later rest by simp
    moreover have "region_lo nxt < region_hi nxt"
      using rest_in rest by (simp add: region_in_def)
    ultimately have "region_hi lst \<le> region_lo r" by linarith
    then show ?thesis using IH ji by simp
  qed
qed

lemma add_region_to_aspace_ok:
  assumes ok: "aspace_ok a" and rok: "regions_ok a"
    and res: "add_region_to_aspace a r = (NO_ERROR, a', k)"
  shows "regions_ok a' \<and> a_base a' = a_base a \<and> a_size a' = a_size a \<and>
         k < length (region_list a') \<and> r_base (region_list a' ! k) = r_base r \<and>
         r_size (region_list a' ! k) = r_size r"
proof -
  have pass: "r_size r \<noteq> 0" "is_region_inside_aspace a (r_base r) (r_size r)"
    using res by (auto simp add: add_region_to_aspace_def split: if_splits)
  then have r: "region_in a r" by (simp add: region_in_iff [OF ok])
  have sorted: "sorted_wrt (\<lambda>x y. region_hi x \<le> region_lo y) (region_list a)"
    and all_in: "list_all (region_in a) (region_list a)"
    using rok by (simp_all add: regions_ok_def)
  have hi: "region_hi r = region_lo r + unat (r_size r)"
    by (simp add: region_hi_def region_lo_def)
  have rlt: "region_lo r < region_hi r" using r by (simp add: region_in_def)
  have front: "(region_end r < r_base x) = (region_hi r \<le> region_lo x)" for x
    using rlt unat_region_end_incl [OF ok r]
    by (auto simp add: word_less_nat_alt region_lo_def)
  have unfold: "add_region_to_aspace a r =
      (case region_list a of
          [] \<Rightarrow> (NO_ERROR, a\<lparr>region_list := list_add_after 0 r (region_list a)\<rparr>, 0)
        | first # _ \<Rightarrow>
            if region_end r < r_base first
            then (NO_ERROR, a\<lparr>region_list := list_add_after 0 r (region_list a)\<rparr>, 0)
            else
              (case add_region_walk r (region_end r) 0 (region_list a) of
                 Some k \<Rightarrow>
                   (NO_ERROR, a\<lparr>region_list := list_add_after k r (region_list a)\<rparr>, k)
               | None \<Rightarrow> (ERR_NO_MEMORY, a, 0)))"
    unfolding add_region_to_aspace_def region_end_def Let_def using pass by simp
  have "a' = a\<lparr>region_list := list_add_after k r (region_list a)\<rparr> \<and>
        placed (region_list a) (region_lo r) (unat (r_size r)) k"
  proof (cases "region_list a")
    case Nil
    then show ?thesis
      using res unfold by (simp add: placed_def)
  next
    case (Cons first rest)
    show ?thesis
    proof (cases "region_end r < r_base first")
      case True
      then have k: "k = 0" "a' = a\<lparr>region_list := list_add_after 0 r (region_list a)\<rparr>"
        using res unfold Cons by simp_all
      have "region_hi r \<le> region_lo first" using True front by simp
      moreover have "region_lo first < region_hi first"
        using all_in Cons by (simp add: region_in_def)
      moreover have "\<forall>x \<in> set rest. region_hi first \<le> region_lo x"
        using sorted Cons by simp
      ultimately have "list_all (\<lambda>x. region_hi r \<le> region_lo x) (first # rest)"
        by (auto simp add: list_all_iff)
      then show ?thesis using k Cons hi by (simp add: placed_def)
    next
      case False
      show ?thesis
      proof (cases "add_region_walk r (region_end r) 0 (region_list a)")
        case None
        then have "add_region_to_aspace a r = (ERR_NO_MEMORY, a, 0)"
          using unfold Cons False by (simp del: add_region_walk.simps)
        then show ?thesis using res by simp
      next
        case (Some k')
        then have "add_region_to_aspace a r =
            (NO_ERROR, a\<lparr>region_list := list_add_after k' r (region_list a)\<rparr>, k')"
          using unfold Cons False by (simp del: add_region_walk.simps)
        then have k: "k = k'" "a' = a\<lparr>region_list := list_add_after k r (region_list a)\<rparr>"
          using res by simp_all
        show ?thesis
          using add_region_walk_placed [OF ok r sorted all_in Some] hi k
          by (simp add: placed_def)
      qed
    qed
  qed
  then have a': "a' = a\<lparr>region_list := list_add_after k r (region_list a)\<rparr>"
    and pl: "placed (region_list a) (region_lo r) (unat (r_size r)) k"
    by simp_all
  have new: "sorted_wrt (\<lambda>x y. region_hi x \<le> region_lo y) (list_add_after k r (region_list a)) \<and>
         list_all (region_in a) (list_add_after k r (region_list a))"
    by (rule list_add_after_ok [OF sorted all_in pl hi r])
  have same: "region_in a' = region_in a"
    by (rule ext) (simp add: a' region_in_def aspace_lo_def aspace_hi_def)
  have kl: "k \<le> length (region_list a)" using pl by (simp add: placed_def)
  then have at: "list_add_after k r (region_list a) ! k = r"
    by (simp add: list_add_after_def nth_append)
  show ?thesis
    using new same kl at by (simp add: regions_ok_def a' list_add_after_def)
qed

lemma regions_ok_cong:
  assumes "a_base a' = a_base a" "a_size a' = a_size a"
    and "map (\<lambda>r. (r_base r, r_size r)) (region_list a') =
         map (\<lambda>r. (r_base r, r_size r)) (region_list a)"
  shows "regions_ok a' = regions_ok a"
proof -
  let ?g = "\<lambda>r. (r_base r, r_size r)"
  let ?P = "\<lambda>x y. unat (fst x) + unat (snd x) \<le> unat (fst y)"
  let ?Q = "\<lambda>b s x. unat (fst x) < unat (fst x) + unat (snd x) \<and> unat b \<le> unat (fst x) \<and>
                      unat (fst x) + unat (snd x) \<le> unat b + unat s"
  have 1: "sorted_wrt (\<lambda>x y. region_hi x \<le> region_lo y) rs = sorted_wrt ?P (map ?g rs)" for rs
    by (simp add: sorted_wrt_map region_hi_def region_lo_def)
  have 2: "list_all (region_in b) rs = list_all (?Q (a_base b) (a_size b)) (map ?g rs)" for b rs
    by (simp add: list_all_iff region_in_def region_hi_def region_lo_def aspace_lo_def
        aspace_hi_def)
  show ?thesis
    unfolding regions_ok_def 1 2 using assms by simp
qed

lemma map_update_same: "(map f xs)[k := f (xs ! k)] = map f xs"
proof -
  have "(map f xs)[k := f (xs ! k)] = map f (xs[k := xs ! k])"
    by (simp only: map_update)
  then show ?thesis by simp
qed

lemma attach_pages_ok: "regions_ok (attach_pages k pages a) = regions_ok a"
proof (rule regions_ok_cong)
  show "map (\<lambda>r. (r_base r, r_size r)) (region_list (attach_pages k pages a)) =
         map (\<lambda>r. (r_base r, r_size r)) (region_list a)"
    using map_update_same [of "\<lambda>r. (r_base r, r_size r)" "region_list a" k]
    by (simp add: attach_pages_def map_update)
qed (simp_all add: attach_pages_def)

lemma attach_pages_base [simp]:
  "a_base (attach_pages k pages a) = a_base a" "a_size (attach_pages k pages a) = a_size a"
  by (simp_all add: attach_pages_def)

lemma alloc_region_ok:
  assumes ok: "aspace_ok a" and rok: "regions_ok a"
    and dyn: "vmm_flags AND VMM_FLAG_VALLOC_SPECIFIC = 0 \<Longrightarrow>
                a_base a \<noteq> 0 \<and> unat align_pow2 < 32 \<and> sz \<noteq> 0"
    and res: "alloc_region heap_ok a name sz vaddr align_pow2 vmm_flags region_flags
                arch_mmu_flags = Some (k, a')"
  shows "regions_ok a' \<and> a_base a' = a_base a \<and> a_size a' = a_size a"
proof -
  obtain r where r: "alloc_region_struct heap_ok name vaddr sz region_flags arch_mmu_flags = Some r"
    using res by (cases "alloc_region_struct heap_ok name vaddr sz region_flags arch_mmu_flags")
      (simp_all add: alloc_region_def)
  then have rsz: "r_size r = sz"
    by (auto simp add: alloc_region_struct_def split: if_splits)
  show ?thesis
  proof (cases "vmm_flags AND VMM_FLAG_VALLOC_SPECIFIC = 0")
    case False
    then have "add_region_to_aspace a r = (NO_ERROR, a', k)"
      using res r
      by (cases "add_region_to_aspace a r") (simp add: alloc_region_def split: if_splits)
    then show ?thesis
      using add_region_to_aspace_ok [OF ok rok] by blast
  next
    case True
    then have base: "a_base a \<noteq> 0" and al: "unat align_pow2 < 32" and nz: "sz \<noteq> 0"
      using dyn by simp_all
    have pos: "0 < unat sz" using nz by (simp add: unat_gt_0)
    have sorted: "sorted_wrt (\<lambda>x y. region_hi x \<le> region_lo y) (region_list a)"
      and all_in: "list_all (region_in a) (region_list a)"
      using rok by (simp_all add: regions_ok_def)
    obtain spot before where sp: "alloc_spot a sz align_pow2 = (spot, before)"
      by (cases "alloc_spot a sz align_pow2")
    have found: "spot \<noteq> - 1" and j: "before = Some k"
      and a': "a' = a\<lparr>region_list := list_add_after k (r\<lparr>r_base := spot\<rparr>) (region_list a)\<rparr>"
      using res r True sp
      by (auto simp add: alloc_region_def split: if_splits option.splits)
    let ?k = "max (unat align_pow2) PAGE_SIZE_SHIFT"
    have cand: "candidate a ?k (unat sz) (aspace_lo a) (region_list a) (unat spot)"
      and pl: "placed (region_list a) (unat spot) (unat sz) k"
      using alloc_spot_spec [OF ok base al pos sorted all_in] sp found j by simp_all
    let ?r = "r\<lparr>r_base := spot\<rparr>"
    have lo: "region_lo ?r = unat spot" and hi: "region_hi ?r = region_lo ?r + unat sz"
      using rsz by (simp_all add: region_lo_def region_hi_def)
    have rin: "region_in a ?r"
      using cand pos rsz
      by (simp add: candidate_def region_in_def region_lo_def region_hi_def)
    have new: "sorted_wrt (\<lambda>x y. region_hi x \<le> region_lo y) (list_add_after k ?r (region_list a)) \<and>
         list_all (region_in a) (list_add_after k ?r (region_list a))"
      by (rule list_add_after_ok [OF sorted all_in _ hi rin]) (simp add: lo pl)
    have same: "region_in a' = region_in a"
      by (rule ext) (simp add: a' region_in_def aspace_lo_def aspace_hi_def)
    show ?thesis
      using new same by (simp add: regions_ok_def a')
  qed
qed

lemma flag_specific_set: "VMM_FLAG_VALLOC_SPECIFIC AND VMM_FLAG_VALLOC_SPECIFIC \<noteq> 0"
  by (simp add: VMM_FLAG_VALLOC_SPECIFIC_def)

lemma vmm_reserve_space_aspace:
  "snd (vmm_reserve_space sv (Some a) name sz vaddr w) = Some a \<or>
   (case alloc_region (malloc_ok sv) a (case name of None \<Rightarrow> [] | Some n \<Rightarrow> n)
           (trim_to_aspace a vaddr sz) vaddr 0 VMM_FLAG_VALLOC_SPECIFIC
           VMM_REGION_FLAG_RESERVED
           (case arch_mmu_query sv vaddr (mmu w) of None \<Rightarrow> 0 | Some f \<Rightarrow> f) of
      None \<Rightarrow> False
    | Some (k, a'') \<Rightarrow> snd (vmm_reserve_space sv (Some a) name sz vaddr w) = Some a'')"
  by (simp add: vmm_reserve_space_def Let_def split: option.splits prod.splits)

lemma vmm_alloc_physical_aspace:
  "fst (snd (vmm_alloc_physical sv (Some a) name sz ptr paddr vmm_flags arch_mmu_flags w))
     = Some a \<or>
   (sz \<noteq> 0 \<and>
    (case alloc_region (malloc_ok sv) a (case name of None \<Rightarrow> [] | Some n \<Rightarrow> n) sz
            (if vmm_flags AND VMM_FLAG_VALLOC_SPECIFIC \<noteq> 0
             then (case ptr of None \<Rightarrow> 0 | Some v \<Rightarrow> v) else 0)
            0 vmm_flags VMM_REGION_FLAG_PHYSICAL arch_mmu_flags of
       None \<Rightarrow> False
     | Some (k, a'') \<Rightarrow>
         fst (snd (vmm_alloc_physical sv (Some a) name sz ptr paddr vmm_flags arch_mmu_flags w))
           = Some a''))"
  by (simp add: vmm_alloc_physical_def Let_def split: option.splits prod.splits)

lemma vmm_alloc_contiguous_aspace:
  "fst (snd (vmm_alloc_contiguous sv a name sz ptr align_pow2 vmm_flags arch_mmu_flags w)) = a \<or>
   (ROUNDUP sz PAGE_SIZE \<noteq> 0 \<and>
    (case alloc_region (malloc_ok sv) a (case name of None \<Rightarrow> [] | Some n \<Rightarrow> n)
            (ROUNDUP sz PAGE_SIZE)
            (if vmm_flags AND VMM_FLAG_VALLOC_SPECIFIC \<noteq> 0
             then (case ptr of None \<Rightarrow> 0 | Some v \<Rightarrow> v) else 0)
            align_pow2 vmm_flags VMM_REGION_FLAG_PHYSICAL arch_mmu_flags of
       None \<Rightarrow> False
     | Some (k, a'') \<Rightarrow>
         fst (snd (vmm_alloc_contiguous sv a name sz ptr align_pow2 vmm_flags arch_mmu_flags w))
           = attach_pages k
               (fst (snd (snd (pmm_alloc_contiguous sv (ROUNDUP sz PAGE_SIZE div PAGE_SIZE)
                  align_pow2 (pmm w))))) a''))"
  by (simp add: vmm_alloc_contiguous_def Let_def split: option.splits prod.splits)

lemma vmm_alloc_aspace:
  "fst (snd (vmm_alloc sv a name sz ptr align_pow2 vmm_flags arch_mmu_flags w)) = a \<or>
   (ROUNDUP sz PAGE_SIZE \<noteq> 0 \<and>
    (case alloc_region (malloc_ok sv) a (case name of None \<Rightarrow> [] | Some n \<Rightarrow> n)
            (ROUNDUP sz PAGE_SIZE)
            (if vmm_flags AND VMM_FLAG_VALLOC_SPECIFIC \<noteq> 0
             then (case ptr of None \<Rightarrow> 0 | Some v \<Rightarrow> v) else 0)
            align_pow2 vmm_flags VMM_REGION_FLAG_PHYSICAL arch_mmu_flags of
       None \<Rightarrow> False
     | Some (k, a'') \<Rightarrow>
         fst (snd (vmm_alloc sv a name sz ptr align_pow2 vmm_flags arch_mmu_flags w))
           = attach_pages k
               (fst (snd (pmm_alloc_pages sv (ROUNDUP sz PAGE_SIZE div PAGE_SIZE) (pmm w))))
               a''))"
  by (simp add: vmm_alloc_def Let_def split: option.splits prod.splits)

theorem calls_keep_regions_ok:
  assumes ok: "aspace_ok a" and rok: "regions_ok a" and base: "a_base a \<noteq> 0"
    and al: "unat align_pow2 < 32"
  shows "snd (vmm_reserve_space sv (Some a) name sz vaddr w) = Some a' \<Longrightarrow>
           regions_ok a' \<and> a_base a' = a_base a \<and> a_size a' = a_size a"
    and "fst (snd (vmm_alloc_physical sv (Some a) name sz ptr paddr vmm_flags arch_mmu_flags w))
           = Some a' \<Longrightarrow>
           regions_ok a' \<and> a_base a' = a_base a \<and> a_size a' = a_size a"
    and "fst (snd (vmm_alloc_contiguous sv a name sz ptr align_pow2 vmm_flags arch_mmu_flags w))
           = a' \<Longrightarrow>
           regions_ok a' \<and> a_base a' = a_base a \<and> a_size a' = a_size a"
    and "fst (snd (vmm_alloc sv a name sz ptr align_pow2 vmm_flags arch_mmu_flags w)) = a' \<Longrightarrow>
           regions_ok a' \<and> a_base a' = a_base a \<and> a_size a' = a_size a"
proof -
  note region = alloc_region_ok [OF ok rok]
  have dyn: "regions_ok a'' \<and> a_base a'' = a_base a \<and> a_size a'' = a_size a"
    if "alloc_region h a n s v align_pow2 f rf mf = Some (k, a'')" "s \<noteq> 0"
    for h n s v f rf mf k a''
    by (rule region [OF _ that(1)]) (use base al that(2) in simp)
  have dyn0: "regions_ok a'' \<and> a_base a'' = a_base a \<and> a_size a'' = a_size a"
    if "alloc_region h a n s v 0 f rf mf = Some (k, a'')" "s \<noteq> 0"
    for h n s v f rf mf k a''
    by (rule region [OF _ that(1)]) (use base that(2) in simp)
  have spec: "regions_ok a'' \<and> a_base a'' = a_base a \<and> a_size a'' = a_size a"
    if "alloc_region h a n s v 0 VMM_FLAG_VALLOC_SPECIFIC rf mf = Some (k, a'')"
    for h n s v rf mf k a''
    by (rule region [OF _ that]) (use flag_specific_set in simp)
  show "regions_ok a' \<and> a_base a' = a_base a \<and> a_size a' = a_size a"
    if "snd (vmm_reserve_space sv (Some a) name sz vaddr w) = Some a'"
    using vmm_reserve_space_aspace [of sv a name sz vaddr w] that rok spec
    by (auto split: option.splits)
  show "regions_ok a' \<and> a_base a' = a_base a \<and> a_size a' = a_size a"
    if "fst (snd (vmm_alloc_physical sv (Some a) name sz ptr paddr vmm_flags arch_mmu_flags w))
           = Some a'"
    using vmm_alloc_physical_aspace [of sv a name sz ptr paddr vmm_flags arch_mmu_flags w]
      that rok dyn0
    by (auto split: option.splits)
  show "regions_ok a' \<and> a_base a' = a_base a \<and> a_size a' = a_size a"
    if "fst (snd (vmm_alloc_contiguous sv a name sz ptr align_pow2 vmm_flags arch_mmu_flags w))
           = a'"
    using vmm_alloc_contiguous_aspace [of sv a name sz ptr align_pow2 vmm_flags arch_mmu_flags w]
      that rok dyn
    by (auto simp add: attach_pages_ok split: option.splits)
  show "regions_ok a' \<and> a_base a' = a_base a \<and> a_size a' = a_size a"
    if "fst (snd (vmm_alloc sv a name sz ptr align_pow2 vmm_flags arch_mmu_flags w)) = a'"
    using vmm_alloc_aspace [of sv a name sz ptr align_pow2 vmm_flags arch_mmu_flags w]
      that rok dyn
    by (auto simp add: attach_pages_ok split: option.splits)
qed

lemma vmm_invariants_iff: "vmm_invariants a = (aspace_ok a \<and> regions_ok a)"
  using regions_ok_iff [of a] by (auto simp add: vmm_invariants_def)

lemma vmm_invariants_step:
  assumes "vmm_invariants a" "regions_ok a' \<and> a_base a' = a_base a \<and> a_size a' = a_size a"
  shows "vmm_invariants a'"
  using assms by (simp add: vmm_invariants_iff aspace_ok_def)

theorem calls_keep_invariants:
  assumes inv: "vmm_invariants a" and base: "a_base a \<noteq> 0" and al: "unat align_pow2 < 32"
  shows "snd (vmm_reserve_space sv (Some a) name sz vaddr w) = Some a' \<Longrightarrow> vmm_invariants a'"
    and "fst (snd (vmm_alloc_physical sv (Some a) name sz ptr paddr vmm_flags arch_mmu_flags w))
           = Some a' \<Longrightarrow> vmm_invariants a'"
    and "fst (snd (vmm_alloc_contiguous sv a name sz ptr align_pow2 vmm_flags arch_mmu_flags w))
           = a' \<Longrightarrow> vmm_invariants a'"
    and "fst (snd (vmm_alloc sv a name sz ptr align_pow2 vmm_flags arch_mmu_flags w)) = a' \<Longrightarrow>
           vmm_invariants a'"
proof -
  have ok: "aspace_ok a" and rok: "regions_ok a"
    using inv by (simp_all add: vmm_invariants_iff)
  note keep = calls_keep_regions_ok [OF ok rok base al]
  show "vmm_invariants a'" if "snd (vmm_reserve_space sv (Some a) name sz vaddr w) = Some a'"
    by (rule vmm_invariants_step [OF inv keep(1) [OF that]])
  show "vmm_invariants a'"
    if "fst (snd (vmm_alloc_physical sv (Some a) name sz ptr paddr vmm_flags arch_mmu_flags w))
           = Some a'"
    by (rule vmm_invariants_step [OF inv keep(2) [OF that]])
  show "vmm_invariants a'"
    if "fst (snd (vmm_alloc_contiguous sv a name sz ptr align_pow2 vmm_flags arch_mmu_flags w))
           = a'"
    by (rule vmm_invariants_step [OF inv keep(3) [OF that]])
  show "vmm_invariants a'"
    if "fst (snd (vmm_alloc sv a name sz ptr align_pow2 vmm_flags arch_mmu_flags w)) = a'"
    by (rule vmm_invariants_step [OF inv keep(4) [OF that]])
qed

lemma vmm_init_invariants:
  "KERNEL_ASPACE_SIZE \<noteq> 0 \<Longrightarrow>
   KERNEL_ASPACE_BASE \<le> KERNEL_ASPACE_BASE + KERNEL_ASPACE_SIZE - 1 \<Longrightarrow>
   vmm_invariants (vmm_init KERNEL_ASPACE_BASE KERNEL_ASPACE_SIZE)"
  by (simp add: vmm_invariants_def vmm_init_def aspace_ok_def regions_sorted_def
      regions_disjoint_def regions_contained_def regions_nonempty_def)

subsection \<open>Page alignment is kept where the fixed address is aligned\<close>

text \<open>
  A spot that \<^verbatim>\<open>alloc_spot\<close> returns is page-aligned, and so are the sizes the calls
  pass on. A region therefore has a page-aligned base and size whenever the address of
  a fixed placement is page-aligned and, for a trimmed reservation, the end of the
  address space is.
\<close>

lemma IS_PAGE_ALIGNED_dvd: "IS_PAGE_ALIGNED x = ((2 ^ 12 :: 32 word) dvd x)"
proof -
  have "PAGE_SIZE - 1 = (mask 12 :: 32 word)"
    by (simp add: PAGE_SIZE_def PAGE_SIZE_SHIFT_def mask_eq_exp_minus_1)
  then have "IS_PAGE_ALIGNED x = (take_bit 12 x = 0)"
    by (simp add: IS_PAGE_ALIGNED_def take_bit_eq_mask)
  then show ?thesis by (simp only: take_bit_eq_0_iff)
qed

lemma ALIGN_dvd: "12 \<le> k \<Longrightarrow> (2 ^ 12 :: 32 word) dvd ALIGN x (2 ^ k)"
proof -
  assume k: "12 \<le> k"
  have m: "(2 ^ k - 1 :: 32 word) = mask k"
    by (simp add: mask_eq_exp_minus_1)
  have "ALIGN x (2 ^ k) = (x + mask k) AND NOT (mask k)"
    by (simp only: ALIGN_def ROUNDUP_def m)
  also have "\<dots> = push_bit k (drop_bit k (x + mask k))"
    by (rule and_not_mask_word)
  also have "\<dots> = 2 ^ k * drop_bit k (x + mask k)"
    by (simp add: push_bit_eq_mult)
  finally have "(2 ^ k :: 32 word) dvd ALIGN x (2 ^ k)" by simp
  moreover have "(2 ^ 12 :: 32 word) dvd 2 ^ k"
    using k by (rule le_imp_power_dvd)
  ultimately show ?thesis by (rule dvd_trans [rotated])
qed

lemma ROUNDUP_page_aligned: "IS_PAGE_ALIGNED (ROUNDUP sz PAGE_SIZE)"
  using ALIGN_dvd [of 12 sz]
  by (simp add: IS_PAGE_ALIGNED_dvd ALIGN_def PAGE_SIZE_def PAGE_SIZE_SHIFT_def)

lemma alloc_spot_walk_aligned:
  "12 \<le> k \<Longrightarrow> alloc_spot_walk a sz (2 ^ k) i xs = Some (s, j) \<Longrightarrow> (2 ^ 12 :: 32 word) dvd s"
proof (induction xs arbitrary: i)
  case Nil
  then show ?case by simp
next
  case (Cons r rest)
  let ?spot = "ALIGN (r_base r + r_size r) (2 ^ k)"
  have "s = ?spot \<or> alloc_spot_walk a sz (2 ^ k) (Suc i) rest = Some (s, j)"
    using Cons.prems(2) by (auto simp add: Let_def split: if_splits list.splits)
  then show ?case
    using Cons.IH [OF Cons.prems(1)] ALIGN_dvd [OF Cons.prems(1)] by auto
qed

lemma alloc_spot_aligned:
  assumes "alloc_spot a sz align_pow2 = (spot, before)" "spot \<noteq> - 1"
  shows "IS_PAGE_ALIGNED spot"
proof -
  let ?k = "max (unat align_pow2) PAGE_SIZE_SHIFT"
  have k: "12 \<le> ?k" by (simp add: PAGE_SIZE_SHIFT_def)
  have "spot = ALIGN (a_base a) (2 ^ ?k) \<or>
        (\<exists>j. alloc_spot_walk a sz (2 ^ ?k) 0 (region_list a) = Some (spot, j))"
    using assms unfolding alloc_spot_unfold
    by (auto simp add: Let_def split: if_splits list.splits option.splits
        simp del: alloc_spot_walk.simps)
  then show ?thesis
    using ALIGN_dvd [OF k] alloc_spot_walk_aligned [OF k]
    by (auto simp add: IS_PAGE_ALIGNED_dvd)
qed

lemma add_region_to_aspace_list:
  assumes "add_region_to_aspace a r = (NO_ERROR, a', k)"
  shows "region_list a' = list_add_after k r (region_list a) \<and> r_size r \<noteq> 0"
proof -
  have pass: "r_size r \<noteq> 0" "is_region_inside_aspace a (r_base r) (r_size r)"
    using assms by (auto simp add: add_region_to_aspace_def split: if_splits)
  have unfold: "add_region_to_aspace a r =
      (case region_list a of
          [] \<Rightarrow> (NO_ERROR, a\<lparr>region_list := list_add_after 0 r (region_list a)\<rparr>, 0)
        | first # _ \<Rightarrow>
            if region_end r < r_base first
            then (NO_ERROR, a\<lparr>region_list := list_add_after 0 r (region_list a)\<rparr>, 0)
            else
              (case add_region_walk r (region_end r) 0 (region_list a) of
                 Some k \<Rightarrow>
                   (NO_ERROR, a\<lparr>region_list := list_add_after k r (region_list a)\<rparr>, k)
               | None \<Rightarrow> (ERR_NO_MEMORY, a, 0)))"
    unfolding add_region_to_aspace_def region_end_def Let_def using pass by simp
  show ?thesis
  proof (cases "region_list a")
    case Nil
    then show ?thesis using assms unfold pass by auto
  next
    case (Cons first rest)
    show ?thesis
    proof (cases "region_end r < r_base first")
      case True
      then show ?thesis using assms unfold pass Cons by auto
    next
      case False
      then show ?thesis
        using assms unfold pass Cons
        by (cases "add_region_walk r (region_end r) 0 (region_list a)")
          (auto simp del: add_region_walk.simps)
    qed
  qed
qed

lemma list_add_after_all:
  "list_all P (list_add_after k r rs) = (P r \<and> list_all P rs)"
proof -
  have "list_all P (take k rs @ drop k rs) = list_all P rs" by simp
  then show ?thesis
    unfolding list_add_after_def by (auto simp add: list_all_append simp del: append_take_drop_id)
qed

lemma alloc_region_page_aligned:
  assumes al: "regions_page_aligned a"
    and sz: "IS_PAGE_ALIGNED sz" "sz \<noteq> 0"
    and fixed: "vmm_flags AND VMM_FLAG_VALLOC_SPECIFIC \<noteq> 0 \<Longrightarrow> IS_PAGE_ALIGNED vaddr"
    and res: "alloc_region heap_ok a name sz vaddr align_pow2 vmm_flags region_flags
                arch_mmu_flags = Some (k, a')"
  shows "regions_page_aligned a'"
proof -
  obtain r where r: "alloc_region_struct heap_ok name vaddr sz region_flags arch_mmu_flags = Some r"
    using res by (cases "alloc_region_struct heap_ok name vaddr sz region_flags arch_mmu_flags")
      (simp_all add: alloc_region_def)
  then have rr: "r_size r = sz" "r_base r = vaddr"
    by (auto simp add: alloc_region_struct_def split: if_splits)
  show ?thesis
  proof (cases "vmm_flags AND VMM_FLAG_VALLOC_SPECIFIC = 0")
    case False
    then have "add_region_to_aspace a r = (NO_ERROR, a', k)"
      using res r
      by (cases "add_region_to_aspace a r") (simp add: alloc_region_def split: if_splits)
    then have "region_list a' = list_add_after k r (region_list a)"
      using add_region_to_aspace_list by blast
    then show ?thesis
      using al sz fixed False rr by (simp add: regions_page_aligned_def list_add_after_all)
  next
    case True
    obtain spot before where sp: "alloc_spot a sz align_pow2 = (spot, before)"
      by (cases "alloc_spot a sz align_pow2")
    have found: "spot \<noteq> - 1"
      and a': "a' = a\<lparr>region_list := list_add_after k (r\<lparr>r_base := spot\<rparr>) (region_list a)\<rparr>"
      using res r True sp
      by (auto simp add: alloc_region_def split: if_splits option.splits)
    have "IS_PAGE_ALIGNED spot" by (rule alloc_spot_aligned [OF sp found])
    then show ?thesis
      using al sz rr by (simp add: a' regions_page_aligned_def list_add_after_all)
  qed
qed

lemma attach_pages_page_aligned:
  "regions_page_aligned (attach_pages k pages a) = regions_page_aligned a"
proof -
  let ?g = "\<lambda>r. (r_base r, r_size r)"
  have 1: "regions_page_aligned b =
      list_all (\<lambda>x. IS_PAGE_ALIGNED (fst x) \<and> IS_PAGE_ALIGNED (snd x) \<and> snd x \<noteq> 0)
        (map ?g (region_list b))" for b
    by (simp add: regions_page_aligned_def list_all_iff)
  have "map ?g (region_list (attach_pages k pages a)) = map ?g (region_list a)"
    using map_update_same [of ?g "region_list a" k]
    by (simp add: attach_pages_def map_update)
  then show ?thesis by (simp only: 1)
qed

theorem calls_keep_page_alignment:
  assumes al: "regions_page_aligned a"
    and fixed: "vmm_flags AND VMM_FLAG_VALLOC_SPECIFIC \<noteq> 0 \<Longrightarrow>
                  IS_PAGE_ALIGNED (case ptr of None \<Rightarrow> 0 | Some v \<Rightarrow> v)"
  shows "fst (snd (vmm_alloc_physical sv (Some a) name sz ptr paddr vmm_flags arch_mmu_flags w))
           = Some a' \<Longrightarrow> regions_page_aligned a'"
    and "fst (snd (vmm_alloc_contiguous sv a name sz ptr align_pow2 vmm_flags arch_mmu_flags w))
           = a' \<Longrightarrow> regions_page_aligned a'"
    and "fst (snd (vmm_alloc sv a name sz ptr align_pow2 vmm_flags arch_mmu_flags w)) = a' \<Longrightarrow>
           regions_page_aligned a'"
proof -
  let ?v = "if vmm_flags AND VMM_FLAG_VALLOC_SPECIFIC \<noteq> 0
            then (case ptr of None \<Rightarrow> 0 | Some v \<Rightarrow> v) else 0"
  have region: "regions_page_aligned a''"
    if "alloc_region h a n s ?v p vmm_flags rf mf = Some (k, a'')" "IS_PAGE_ALIGNED s" "s \<noteq> 0"
    for h n s p rf mf k a''
    by (rule alloc_region_page_aligned [OF al that(2,3) _ that(1)]) (use fixed in simp)
  have zero: "IS_PAGE_ALIGNED sz" if "fst (snd (vmm_alloc_physical sv (Some a) name sz ptr paddr
      vmm_flags arch_mmu_flags w)) \<noteq> Some a"
    using that by (auto simp add: vmm_alloc_physical_def split: if_splits)
  show "regions_page_aligned a'"
    if "fst (snd (vmm_alloc_physical sv (Some a) name sz ptr paddr vmm_flags arch_mmu_flags w))
           = Some a'"
  proof (cases "a' = a")
    case True
    then show ?thesis using al by simp
  next
    case False
    then have "IS_PAGE_ALIGNED sz" using zero that by simp
    moreover have D: "sz \<noteq> 0 \<and>
      (case alloc_region (malloc_ok sv) a (case name of None \<Rightarrow> [] | Some n \<Rightarrow> n) sz ?v 0
         vmm_flags VMM_REGION_FLAG_PHYSICAL arch_mmu_flags of
         None \<Rightarrow> False | Some (k, a'') \<Rightarrow> Some a' = Some a'')"
      using vmm_alloc_physical_aspace [of sv a name sz ptr paddr vmm_flags arch_mmu_flags w]
        False unfolding that by simp
    moreover obtain k where
      "alloc_region (malloc_ok sv) a (case name of None \<Rightarrow> [] | Some n \<Rightarrow> n) sz ?v 0
         vmm_flags VMM_REGION_FLAG_PHYSICAL arch_mmu_flags = Some (k, a')"
      using D
      by (cases "alloc_region (malloc_ok sv) a (case name of None \<Rightarrow> [] | Some n \<Rightarrow> n) sz
         ?v 0 vmm_flags VMM_REGION_FLAG_PHYSICAL arch_mmu_flags") auto
    ultimately show ?thesis using region by blast
  qed
  show "regions_page_aligned a'"
    if "fst (snd (vmm_alloc_contiguous sv a name sz ptr align_pow2 vmm_flags arch_mmu_flags w))
           = a'"
  proof (cases "a' = a")
    case True
    then show ?thesis using al by simp
  next
    case False
    let ?ar = "alloc_region (malloc_ok sv) a (case name of None \<Rightarrow> [] | Some n \<Rightarrow> n)
         (ROUNDUP sz PAGE_SIZE) ?v align_pow2 vmm_flags VMM_REGION_FLAG_PHYSICAL arch_mmu_flags"
    have D: "ROUNDUP sz PAGE_SIZE \<noteq> 0 \<and>
      (case ?ar of None \<Rightarrow> False
       | Some (k, a'') \<Rightarrow> a' = attach_pages k
           (fst (snd (snd (pmm_alloc_contiguous sv (ROUNDUP sz PAGE_SIZE div PAGE_SIZE)
              align_pow2 (pmm w))))) a'')"
      using vmm_alloc_contiguous_aspace [of sv a name sz ptr align_pow2 vmm_flags
          arch_mmu_flags w] False unfolding that by simp
    then obtain k a'' pages where "?ar = Some (k, a'')" "a' = attach_pages k pages a''"
      by (cases ?ar) auto
    then show ?thesis
      using region D ROUNDUP_page_aligned [of sz] by (simp add: attach_pages_page_aligned)
  qed
  show "regions_page_aligned a'"
    if "fst (snd (vmm_alloc sv a name sz ptr align_pow2 vmm_flags arch_mmu_flags w)) = a'"
  proof (cases "a' = a")
    case True
    then show ?thesis using al by simp
  next
    case False
    let ?ar = "alloc_region (malloc_ok sv) a (case name of None \<Rightarrow> [] | Some n \<Rightarrow> n)
         (ROUNDUP sz PAGE_SIZE) ?v align_pow2 vmm_flags VMM_REGION_FLAG_PHYSICAL arch_mmu_flags"
    have D: "ROUNDUP sz PAGE_SIZE \<noteq> 0 \<and>
      (case ?ar of None \<Rightarrow> False
       | Some (k, a'') \<Rightarrow> a' = attach_pages k
           (fst (snd (pmm_alloc_pages sv (ROUNDUP sz PAGE_SIZE div PAGE_SIZE) (pmm w)))) a'')"
      using vmm_alloc_aspace [of sv a name sz ptr align_pow2 vmm_flags arch_mmu_flags w]
        False unfolding that by simp
    then obtain k a'' pages where "?ar = Some (k, a'')" "a' = attach_pages k pages a''"
      by (cases ?ar) auto
    then show ?thesis
      using region D ROUNDUP_page_aligned [of sz] by (simp add: attach_pages_page_aligned)
  qed
qed

theorem reserve_keeps_page_alignment:
  assumes ok: "aspace_ok a" and al: "regions_page_aligned a"
    and top: "IS_PAGE_ALIGNED (a_base a + a_size a)"
    and res: "snd (vmm_reserve_space sv (Some a) name sz vaddr w) = Some a'"
  shows "regions_page_aligned a'"
proof (cases "a' = a")
  case True
  then show ?thesis using al by simp
next
  case False
  have args: "sz \<noteq> 0 \<and> IS_PAGE_ALIGNED vaddr \<and> IS_PAGE_ALIGNED sz \<and> is_inside_aspace a vaddr"
    using res False by (auto simp add: vmm_reserve_space_def split: if_splits)
  let ?sz = "trim_to_aspace a vaddr sz"
  let ?ar = "alloc_region (malloc_ok sv) a (case name of None \<Rightarrow> [] | Some n \<Rightarrow> n)
           ?sz vaddr 0 VMM_FLAG_VALLOC_SPECIFIC VMM_REGION_FLAG_RESERVED
           (case arch_mmu_query sv vaddr (mmu w) of None \<Rightarrow> 0 | Some f \<Rightarrow> f)"
  have "case ?ar of None \<Rightarrow> False | Some (k, a'') \<Rightarrow> Some a' = Some a''"
    using vmm_reserve_space_aspace [of sv a name sz vaddr w] False unfolding res by simp
  then obtain k where ar: "?ar = Some (k, a')"
    by (cases ?ar) auto
  have nz: "?sz \<noteq> 0"
    using trim_to_aspace_fits [OF ok] args by simp
  have "(2 ^ 12 :: 32 word) dvd a_base a + a_size a - vaddr"
    using top args by (simp add: IS_PAGE_ALIGNED_dvd)
  then have "IS_PAGE_ALIGNED ?sz"
    using trim_to_aspace_cases [OF ok, of vaddr sz] args
    by (auto simp add: IS_PAGE_ALIGNED_dvd)
  then show ?thesis
    using alloc_region_page_aligned [OF al _ nz _ ar] args by simp
qed

subsection \<open>Returning pages when the pmm falls short\<close>

text \<open>
  When the pmm hands out fewer pages than asked for, \<^verbatim>\<open>vmm_alloc_contiguous\<close> leaves
  through the label \<^verbatim>\<open>err\<close> and the pmm keeps the state the allocation left it in;
  \<^verbatim>\<open>vmm_alloc\<close> leaves through \<^verbatim>\<open>err1\<close> and calls \<^verbatim>\<open>pmm_free\<close> on the pages.
\<close>

lemma vmm_alloc_contiguous_short:
  assumes "ROUNDUP sz0 PAGE_SIZE \<noteq> 0"
    and "vmm_flags AND VMM_FLAG_VALLOC_SPECIFIC = 0 \<or> ptr \<noteq> None"
    and "pmm_alloc_contiguous sv (ROUNDUP sz0 PAGE_SIZE div PAGE_SIZE) align_pow2 (pmm w)
           = (count, pa, pages, p')"
    and "count < ROUNDUP sz0 PAGE_SIZE div PAGE_SIZE"
  shows "vmm_alloc_contiguous sv a name sz0 ptr align_pow2 vmm_flags arch_mmu_flags w
           = (ERR_NO_MEMORY, a, ptr, w\<lparr>pmm := p'\<rparr>)"
  using assms by (auto simp add: vmm_alloc_contiguous_def Let_def)

lemma vmm_alloc_short:
  assumes "ROUNDUP sz0 PAGE_SIZE \<noteq> 0"
    and "vmm_flags AND VMM_FLAG_VALLOC_SPECIFIC = 0 \<or> ptr \<noteq> None"
    and "pmm_alloc_pages sv (ROUNDUP sz0 PAGE_SIZE div PAGE_SIZE) (pmm w) = (count, pages, p')"
    and "count < ROUNDUP sz0 PAGE_SIZE div PAGE_SIZE"
  shows "vmm_alloc sv a name sz0 ptr align_pow2 vmm_flags arch_mmu_flags w
           = (ERR_NO_MEMORY, a, ptr, w\<lparr>pmm := pmm_free sv pages p'\<rparr>)"
  using assms by (auto simp add: vmm_alloc_def Let_def)

text \<open>
  C1. A call of \<^verbatim>\<open>vmm_alloc_contiguous\<close> in which the pmm returns fewer pages than
  \<open>size / page_size\<close> returns \<open>NO_MEMORY\<close> and gives every page it obtained back to the
  pmm, whose count of free pages is as before the call. The code returns \<open>NO_MEMORY\<close>
  but keeps the pages: in scenario 5, with four free frames none of them adjacent, the
  pmm hands out a run of one page for the four asked for, and after the call three
  frames are free.
\<close>

theorem alloc_contiguous_short_run_keeps_pages:
  "vmm_alloc_contiguous mock_services scenario_aspace None 0x4000 (Some 0x99) 12 0 0
       scattered_pages
     = (ERR_NO_MEMORY, scenario_aspace, Some 0x99, \<lparr>pmm = [2, 4, 6], mmu = []\<rparr>) \<and>
   length (pmm scattered_pages) = 4"
  by code_simp

subsection \<open>Placement in an address space that starts at address 0\<close>

text \<open>
  The address space \<open>low_aspace\<close> is what \<^verbatim>\<open>vmm_reserve_space\<close> makes of the empty
  address space \<open>[0, 0xFFFFF000)\<close> when the range \<open>[0, 0xFFFF1000)\<close> is reserved.
\<close>

lemma low_aspace_reached:
  "vmm_reserve_space mock_services (Some (vmm_init 0 0xFFFFF000)) (Some ''low'') 0xFFFF1000 0
       empty_world = (NO_ERROR, Some low_aspace)"
  by code_simp

text \<open>
  C2. After every public call returns, the regions of the address space are strictly
  sorted by base, pairwise disjoint and contained in the address space. In
  \<open>low_aspace\<close>, which satisfies all of this, the aligned spot after the region wraps
  to address 0, which \<^verbatim>\<open>is_inside_aspace\<close> accepts: \<^verbatim>\<open>vmm_alloc\<close> of one page with 64 KiB
  alignment succeeds and puts a second region at address 0 behind the first, so that
  the list is neither sorted nor disjoint.
\<close>

theorem alloc_in_low_aspace_breaks_order:
  "aspace_ok low_aspace \<and> regions_sorted low_aspace \<and> regions_disjoint low_aspace \<and>
   regions_contained low_aspace \<and> regions_page_aligned low_aspace \<and>
   (case vmm_alloc mock_services low_aspace None 0x1000 (Some 0x99) 16 0 0 four_pages of
      (st, a', ptr', w') \<Rightarrow>
        st = NO_ERROR \<and> ptr' = Some 0 \<and>
        map (\<lambda>r. (r_base r, r_size r)) (region_list a') = [(0, 0xFFFF1000), (0, 0x1000)] \<and>
        \<not> regions_sorted a' \<and> \<not> regions_disjoint a')"
  by code_simp

text \<open>
  C3. For an address space whose regions satisfy the invariants and a page-aligned
  size that is not zero, \<^verbatim>\<open>alloc_spot\<close> fails or returns the smallest address that is a
  multiple of \<open>1 << max(align_pow2, page_shift)\<close> at which the range lies in the address
  space and meets no region, and it fails exactly when there is no such address. In
  \<open>low_aspace\<close> no address is both free and 64 KiB aligned, yet the search returns
  address 0, inside the existing region, to be inserted after it.
\<close>

theorem alloc_spot_in_low_aspace_overlaps:
  "alloc_spot low_aspace 0x1000 16 = (0, Some 1) \<and> \<not> spot_free low_aspace 0 0x1000"
  by code_simp

subsection \<open>Trimming\<close>

text \<open>
  C4. For a start inside the address space, \<^verbatim>\<open>trim_to_aspace\<close> returns a length no
  larger than the one asked for, with which the range fits in the address space; it
  returns 0 for size 0 and the size itself when the range already fits. The comparison
  with \<open>aspace->size - 1\<close> is off by one: a range that ends one byte before the end of
  the address space fits, and comes back one byte longer.
\<close>

theorem trim_to_aspace_grows_by_one:
  "is_inside_aspace scenario_aspace 0x10000000 \<and>
   is_region_inside_aspace scenario_aspace 0x10000000 0xFFFFF \<and>
   trim_to_aspace scenario_aspace 0x10000000 0xFFFFF = 0x100000 \<and>
   is_region_inside_aspace (vmm_init 0x10000000 0x100001) 0x10000000 0x100000 \<and>
   trim_to_aspace (vmm_init 0x10000000 0x100001) 0x10000000 0x100000 = 0x100001"
  by code_simp

text \<open>
  Through \<^verbatim>\<open>vmm_reserve_space\<close> the longer length becomes the size of the region: in the
  address space \<open>[0x10000000, 0x10100001)\<close> a reservation of \<open>0x100000\<close> bytes at the base
  makes a region of \<open>0x100001\<close> bytes.
\<close>

lemma reserve_grows_by_one:
  "(case vmm_reserve_space mock_services (Some (vmm_init 0x10000000 0x100001)) None 0x100000
           0x10000000 empty_world of
      (st, a') \<Rightarrow>
        st = NO_ERROR \<and>
        map (\<lambda>r. (r_base r, r_size r)) (case a' of None \<Rightarrow> [] | Some a \<Rightarrow> region_list a)
          = [(0x10000000, 0x100001)])"
  by code_simp

subsection \<open>The scenarios of first fit and alignment\<close>

lemma page_consts:
  "PAGE_SIZE = 4096"
  "ROUNDUP 0x2000 PAGE_SIZE = 0x2000"
  "ROUNDUP 0x1000 PAGE_SIZE = 0x1000"
  "(0x2000 :: 32 word) div PAGE_SIZE = 2"
  "(0x1000 :: 32 word) div PAGE_SIZE = 1"
  by (simp_all add: PAGE_SIZE_def PAGE_SIZE_SHIFT_def ROUNDUP_def)

text \<open>
  C5. With 4096-byte pages and the kernel address space \<open>[0x10000000, 0x10100000)\<close>:
  on the empty address space \<^verbatim>\<open>vmm_alloc\<close> of \<open>0x2000\<close> bytes with \<open>align_pow2 = 12\<close>
  succeeds with \<open>*ptr = 0x10000000\<close> and creates the one region
  \<open>[0x10000000, 0x10002000)\<close> with two pages attached; \<^verbatim>\<open>vmm_alloc\<close> of \<open>0x1000\<close> bytes
  with \<open>align_pow2 = 16\<close> after it succeeds with \<open>*ptr = 0x10010000\<close>. This holds for
  all services whose heap has room and whose pmm hands out the pages asked for.
\<close>

theorem scenario_first_fit_then_alignment:
  assumes heap: "malloc_ok sv"
    and pages: "pmm_alloc_pages sv 2 (pmm w) = (2, [p, q], p1)"
    and first: "vmm_alloc sv scenario_aspace name 0x2000 (Some x) 12 0 mf w = (st, a1, ptr1, w1)"
    and page: "pmm_alloc_pages sv 1 (pmm w1) = (1, [p'], p2)"
    and second: "vmm_alloc sv a1 name' 0x1000 (Some y) 16 0 mf' w1 = (st2, a2, ptr2, w2)"
  shows "st = NO_ERROR \<and> ptr1 = Some 0x10000000 \<and>
         map (\<lambda>r. (r_base r, r_size r, r_page_list r)) (region_list a1)
           = [(0x10000000, 0x2000, [p, q])] \<and>
         st2 = NO_ERROR \<and> ptr2 = Some 0x10010000"
proof -
  have 1: "vmm_alloc sv scenario_aspace name 0x2000 (Some x) 12 0 mf w =
      (NO_ERROR,
       scenario_aspace\<lparr>region_list :=
         [\<lparr>r_name = strlcpy (case name of None \<Rightarrow> [] | Some n \<Rightarrow> n) NAME_BYTES,
           r_base = 0x10000000, r_size = 0x2000, r_flags = VMM_REGION_FLAG_PHYSICAL,
           r_arch_mmu_flags = mf, r_page_list = [p, q]\<rparr>]\<rparr>,
       Some 0x10000000,
       \<lparr>pmm = p1, mmu = map_pages sv mf 0x10000000 [p, q] (mmu w)\<rparr>)"
    using heap pages
    by (simp add: vmm_alloc_def page_consts Let_def alloc_region_def alloc_region_struct_def
        alloc_spot_def scenario_aspace_def vmm_init_def ALIGN_def ROUNDUP_def PAGE_SIZE_SHIFT_def
        is_inside_aspace_def list_add_after_def attach_pages_def)
  have w1: "pmm w1 = p1" and a1: "a1 = scenario_aspace\<lparr>region_list :=
         [\<lparr>r_name = strlcpy (case name of None \<Rightarrow> [] | Some n \<Rightarrow> n) NAME_BYTES,
           r_base = 0x10000000, r_size = 0x2000, r_flags = VMM_REGION_FLAG_PHYSICAL,
           r_arch_mmu_flags = mf, r_page_list = [p, q]\<rparr>]\<rparr>"
    and r1: "st = NO_ERROR" "ptr1 = Some 0x10000000"
    using first 1 by auto
  have 2: "fst (vmm_alloc sv a1 name' 0x1000 (Some y) 16 0 mf' w1) = NO_ERROR \<and>
           fst (snd (snd (vmm_alloc sv a1 name' 0x1000 (Some y) 16 0 mf' w1))) = Some 0x10010000"
    using heap page
    by (simp add: a1 vmm_alloc_def page_consts Let_def alloc_region_def alloc_region_struct_def
        alloc_spot_def scenario_aspace_def vmm_init_def ALIGN_def ROUNDUP_def PAGE_SIZE_SHIFT_def
        is_inside_aspace_def list_add_after_def attach_pages_def)
  show ?thesis
    using r1 a1 2 second by simp
qed

theorem scenario_first_fit_then_alignment_witness:
  "fst (vmm_alloc mock_services scenario_aspace (Some ''one'') 0x2000 (Some 0x99) 12 0 0
          four_pages) = NO_ERROR \<and>
   fst (snd (snd (vmm_alloc mock_services scenario_aspace (Some ''one'') 0x2000 (Some 0x99)
          12 0 0 four_pages))) = Some 0x10000000 \<and>
   map (\<lambda>r. (r_base r, r_size r, r_page_list r)) (region_list scenario1_aspace)
     = [(0x10000000, 0x2000, [0, 1])] \<and>
   fst (vmm_alloc mock_services scenario1_aspace (Some ''two'') 0x1000 (Some 0x99) 16 0 0
          \<lparr>pmm = [2, 3], mmu = [(0x10000000, 0, 1, 0), (0x10001000, 0x1000, 1, 0)]\<rparr>)
     = NO_ERROR \<and>
   fst (snd (snd (vmm_alloc mock_services scenario1_aspace (Some ''two'') 0x1000 (Some 0x99)
          16 0 0 \<lparr>pmm = [2, 3], mmu = [(0x10000000, 0, 1, 0), (0x10001000, 0x1000, 1, 0)]\<rparr>)))
     = Some 0x10010000"
proof -
  let ?w1 = "\<lparr>pmm = [2, 3], mmu = [(0x10000000, 0, 1, 0), (0x10001000, 0x1000, 1, 0)]\<rparr>
               :: (vm_page list, mock_mmu) world"
  have heap: "malloc_ok mock_services"
    by code_simp
  have pages: "pmm_alloc_pages mock_services 2 (pmm four_pages) = (2, [0, 1], [2, 3])"
    by code_simp
  have first: "vmm_alloc mock_services scenario_aspace (Some ''one'') 0x2000 (Some 0x99) 12 0 0
      four_pages = (NO_ERROR, scenario1_aspace, Some 0x10000000, ?w1)"
    by code_simp
  have page: "pmm_alloc_pages mock_services 1 (pmm ?w1) = (1, [2], [3])"
    by code_simp
  obtain st2 a2 ptr2 w2 where second:
    "vmm_alloc mock_services scenario1_aspace (Some ''two'') 0x1000 (Some 0x99) 16 0 0 ?w1
       = (st2, a2, ptr2, w2)"
    by (metis prod_cases4)
  show ?thesis
    using scenario_first_fit_then_alignment [OF heap pages first page second] first second
    by simp
qed

subsection \<open>Failing calls\<close>

lemma scenario_fixed_placement_overlap:
  "vmm_alloc_physical sv (Some scenario1_aspace) name 0x2000 (Some 0x10001000) 0x80000000
        VMM_FLAG_VALLOC_SPECIFIC arch_mmu_flags w
      = (ERR_NO_MEMORY, Some scenario1_aspace, Some 0x10001000, w)"
  by (simp add: vmm_alloc_physical_def scenario1_aspace_def scenario_aspace_def
      scenario_region_def vmm_init_def IS_PAGE_ALIGNED_def PAGE_SIZE_def PAGE_SIZE_SHIFT_def
      VMM_FLAG_VALLOC_SPECIFIC_def alloc_region_def alloc_region_struct_def
      add_region_to_aspace_def is_region_inside_aspace_def is_inside_aspace_def
      VMM_REGION_FLAG_PHYSICAL_def)

text \<open>
  C6. After a call of \<^verbatim>\<open>vmm_reserve_space\<close>, \<^verbatim>\<open>vmm_alloc_physical\<close>,
  \<^verbatim>\<open>vmm_alloc_contiguous\<close> or \<^verbatim>\<open>vmm_alloc\<close> that fails, the address space is as it was
  before the call, so no new region is visible, and so is the MMU, so no mapping was
  installed. In particular, with the region \<open>[0x10000000, 0x10002000)\<close> in place,
  \<^verbatim>\<open>vmm_alloc_physical\<close> of \<open>0x2000\<close> bytes at \<open>pa = 0x80000000\<close> with
  \<open>*ptr = 0x10001000\<close> and \<^verbatim>\<open>VALLOC_SPECIFIC\<close> returns \<open>NO_MEMORY\<close>, the address space
  unchanged and no map call made.
\<close>

theorem failed_call_leaves_no_trace:
  "(fst (vmm_reserve_space sv (Some a) name sz vaddr w) \<noteq> NO_ERROR \<longrightarrow>
      snd (vmm_reserve_space sv (Some a) name sz vaddr w) = Some a) \<and>
   (fst (vmm_alloc_physical sv (Some a) name sz ptr paddr vmm_flags arch_mmu_flags w)
        \<noteq> NO_ERROR \<longrightarrow>
      no_trace (Some a) w
        (vmm_alloc_physical sv (Some a) name sz ptr paddr vmm_flags arch_mmu_flags w)) \<and>
   (fst (vmm_alloc_contiguous sv a name sz ptr align_pow2 vmm_flags arch_mmu_flags w)
        \<noteq> NO_ERROR \<longrightarrow>
      no_trace a w
        (vmm_alloc_contiguous sv a name sz ptr align_pow2 vmm_flags arch_mmu_flags w)) \<and>
   (fst (vmm_alloc sv a name sz ptr align_pow2 vmm_flags arch_mmu_flags w) \<noteq> NO_ERROR \<longrightarrow>
      no_trace a w (vmm_alloc sv a name sz ptr align_pow2 vmm_flags arch_mmu_flags w)) \<and>
   vmm_alloc_physical sv (Some scenario1_aspace) name 0x2000 (Some 0x10001000) 0x80000000
        VMM_FLAG_VALLOC_SPECIFIC arch_mmu_flags w
      = (ERR_NO_MEMORY, Some scenario1_aspace, Some 0x10001000, w)"
proof (intro conjI)
  show "fst (vmm_reserve_space sv (Some a) name sz vaddr w) \<noteq> NO_ERROR \<longrightarrow>
      snd (vmm_reserve_space sv (Some a) name sz vaddr w) = Some a"
    by (simp add: vmm_reserve_space_def Let_def split: option.splits prod.splits)
  show "fst (vmm_alloc_physical sv (Some a) name sz ptr paddr vmm_flags arch_mmu_flags w)
        \<noteq> NO_ERROR \<longrightarrow>
      no_trace (Some a) w
        (vmm_alloc_physical sv (Some a) name sz ptr paddr vmm_flags arch_mmu_flags w)"
    by (simp add: vmm_alloc_physical_def no_trace_def Let_def split: option.splits prod.splits)
  show "fst (vmm_alloc_contiguous sv a name sz ptr align_pow2 vmm_flags arch_mmu_flags w)
        \<noteq> NO_ERROR \<longrightarrow>
      no_trace a w
        (vmm_alloc_contiguous sv a name sz ptr align_pow2 vmm_flags arch_mmu_flags w)"
    by (simp add: vmm_alloc_contiguous_def no_trace_def Let_def
        split: option.splits prod.splits)
  show "fst (vmm_alloc sv a name sz ptr align_pow2 vmm_flags arch_mmu_flags w) \<noteq> NO_ERROR \<longrightarrow>
      no_trace a w (vmm_alloc sv a name sz ptr align_pow2 vmm_flags arch_mmu_flags w)"
    by (simp add: vmm_alloc_def no_trace_def Let_def split: option.splits prod.splits)
  show "vmm_alloc_physical sv (Some scenario1_aspace) name 0x2000 (Some 0x10001000) 0x80000000
        VMM_FLAG_VALLOC_SPECIFIC arch_mmu_flags w
      = (ERR_NO_MEMORY, Some scenario1_aspace, Some 0x10001000, w)"
    by (rule scenario_fixed_placement_overlap)
qed

theorem failed_call_leaves_no_trace_witness:
  "fst (vmm_reserve_space mock_services (Some scenario1_aspace) None 0x2000 0x10001000
          empty_world) \<noteq> NO_ERROR \<and>
   snd (vmm_reserve_space mock_services (Some scenario1_aspace) None 0x2000 0x10001000
          empty_world) = Some scenario1_aspace \<and>
   fst (vmm_alloc_physical mock_services (Some scenario1_aspace) None 0x2000
          (Some 0x10001000) 0x80000000 VMM_FLAG_VALLOC_SPECIFIC 0 empty_world) \<noteq> NO_ERROR \<and>
   no_trace (Some scenario1_aspace) empty_world
     (vmm_alloc_physical mock_services (Some scenario1_aspace) None 0x2000
          (Some 0x10001000) 0x80000000 VMM_FLAG_VALLOC_SPECIFIC 0 empty_world) \<and>
   fst (vmm_alloc_contiguous mock_services scenario1_aspace None 0x2000 (Some 0x10001000) 12
          VMM_FLAG_VALLOC_SPECIFIC 0 empty_world) \<noteq> NO_ERROR \<and>
   no_trace scenario1_aspace empty_world
     (vmm_alloc_contiguous mock_services scenario1_aspace None 0x2000 (Some 0x10001000) 12
          VMM_FLAG_VALLOC_SPECIFIC 0 empty_world) \<and>
   fst (vmm_alloc mock_services scenario1_aspace None 0x2000 (Some 0x10001000) 12
          VMM_FLAG_VALLOC_SPECIFIC 0 empty_world) \<noteq> NO_ERROR \<and>
   no_trace scenario1_aspace empty_world
     (vmm_alloc mock_services scenario1_aspace None 0x2000 (Some 0x10001000) 12
          VMM_FLAG_VALLOC_SPECIFIC 0 empty_world)"
proof -
  have h1: "fst (vmm_reserve_space mock_services (Some scenario1_aspace) None 0x2000
      0x10001000 empty_world) \<noteq> NO_ERROR"
    by code_simp
  have h2: "fst (vmm_alloc_physical mock_services (Some scenario1_aspace) None 0x2000
      (Some 0x10001000) 0x80000000 VMM_FLAG_VALLOC_SPECIFIC 0 empty_world) \<noteq> NO_ERROR"
    by code_simp
  have h3: "fst (vmm_alloc_contiguous mock_services scenario1_aspace None 0x2000
      (Some 0x10001000) 12 VMM_FLAG_VALLOC_SPECIFIC 0 empty_world) \<noteq> NO_ERROR"
    by code_simp
  have h4: "fst (vmm_alloc mock_services scenario1_aspace None 0x2000 (Some 0x10001000) 12
      VMM_FLAG_VALLOC_SPECIFIC 0 empty_world) \<noteq> NO_ERROR"
    by code_simp
  show ?thesis
    using h1 h2 h3 h4
      failed_call_leaves_no_trace [of mock_services scenario1_aspace None "0x2000"
        "0x10001000" empty_world "Some 0x10001000" "0x80000000" VMM_FLAG_VALLOC_SPECIFIC 0 12]
    by blast
qed

subsection \<open>Reserving a range twice\<close>

text \<open>
  The walk of \<^verbatim>\<open>add_region_to_aspace\<close> finds no place for a region that starts where a
  region of the list starts: before that region the next base is too low, from that
  region on the end of \<open>last\<close> is too high.
\<close>

lemma add_region_walk_occupied:
  assumes "sorted_wrt (\<lambda>x y. r_base x < r_base y) xs"
    and "list_all (\<lambda>x. r_base x \<le> r_base x + r_size x - 1) xs"
    and "r_base r \<le> r_end"
    and "(\<exists>e \<in> set xs. r_base e = r_base r) \<or> (\<forall>x \<in> set xs. r_base r \<le> r_base x)"
  shows "add_region_walk r r_end i xs = None"
  using assms
proof (induction xs arbitrary: i)
  case Nil
  then show ?case by simp
next
  case (Cons lst rest)
  have sorted: "sorted_wrt (\<lambda>x y. r_base x < r_base y) rest"
    and below: "\<forall>y \<in> set rest. r_base lst < r_base y"
    using Cons.prems(1) by simp_all
  have nowrap: "r_base lst \<le> r_base lst + r_size lst - 1"
    and nowrap': "list_all (\<lambda>x. r_base x \<le> r_base x + r_size x - 1) rest"
    using Cons.prems(2) by simp_all
  have rest_ok:
    "(\<exists>e \<in> set rest. r_base e = r_base r) \<or> (\<forall>x \<in> set rest. r_base r \<le> r_base x)"
    using Cons.prems(4) below by (auto intro: less_imp_le)
  have rec: "add_region_walk r r_end (Suc i) rest = None"
    by (rule Cons.IH [OF sorted nowrap' Cons.prems(3) rest_ok])
  have no_slot: "\<not> (r_base r > r_base lst + r_size lst - 1 \<and>
         (case rest of [] \<Rightarrow> True | nxt # _ \<Rightarrow> r_end < r_base nxt))"
  proof (cases "r_base lst + r_size lst - 1 < r_base r")
    case False
    then show ?thesis by simp
  next
    case True
    then have "r_base lst < r_base r"
      using nowrap by simp
    then have "\<exists>e \<in> set rest. r_base e = r_base r"
      using Cons.prems(4) by auto
    then obtain e where e: "e \<in> set rest" "r_base e = r_base r"
      by blast
    then obtain nxt rest' where rest: "rest = nxt # rest'"
      by (cases rest) auto
    have "r_base nxt \<le> r_base e"
      using e sorted rest by (auto intro: less_imp_le)
    then have "\<not> r_end < r_base nxt"
      using e(2) Cons.prems(3) by simp
    then show ?thesis
      using rest by simp
  qed
  show ?case
    using no_slot rec by simp
qed

text \<open>
  In an address space whose regions are sorted, contained and page-aligned,
  \<^verbatim>\<open>vmm_reserve_space\<close> over the range of a region that is already there returns
  \<open>NO_MEMORY\<close> and leaves the region list as it is.
\<close>

theorem reserve_existing_range_fails:
  assumes ok: "aspace_ok a"
    and sorted: "regions_sorted a"
    and contained: "regions_contained a"
    and aligned: "regions_page_aligned a"
    and e: "e \<in> set (region_list a)"
  shows "vmm_reserve_space sv (Some a) name (r_size e) (r_base e) w = (ERR_NO_MEMORY, Some a)"
proof -
  have e_al: "IS_PAGE_ALIGNED (r_base e)" "IS_PAGE_ALIGNED (r_size e)" and nz: "r_size e \<noteq> 0"
    using aligned e by (auto simp add: regions_page_aligned_def list_all_iff)
  have e_in: "is_region_inside_aspace a (r_base e) (r_size e)"
    using contained e by (auto simp add: regions_contained_def list_all_iff)
  then have ins: "is_inside_aspace a (r_base e)"
    by (simp add: is_region_inside_aspace_def split: if_splits)
  define sz' where "sz' = trim_to_aspace a (r_base e) (r_size e)"
  have fits: "sz' \<noteq> 0" "is_region_inside_aspace a (r_base e) sz'"
    using trim_to_aspace_fits [OF ok ins nz] by (simp_all add: sz'_def)
  have nowrap: "list_all (\<lambda>x. r_base x \<le> r_base x + r_size x - 1) (region_list a)"
    using contained aligned
    by (auto simp add: regions_contained_def regions_page_aligned_def list_all_iff
        intro: region_no_wrap)
  have full: "add_region_to_aspace a
       \<lparr>r_name = n, r_base = r_base e, r_size = sz', r_flags = f, r_arch_mmu_flags = g,
        r_page_list = []\<rparr> = (ERR_NO_MEMORY, a, 0)" for n f g
  proof -
    let ?r = "\<lparr>r_name = n, r_base = r_base e, r_size = sz', r_flags = f, r_arch_mmu_flags = g,
        r_page_list = []\<rparr>"
    let ?end = "r_base e + sz' - 1"
    have le: "r_base ?r \<le> ?end"
      using region_no_wrap [OF fits(2) fits(1)] by simp
    have walk: "add_region_walk ?r ?end 0 (region_list a) = None"
      by (rule add_region_walk_occupied [OF sorted [unfolded regions_sorted_def] nowrap le])
        (use e in auto)
    obtain first rest where l: "region_list a = first # rest"
      using e by (cases "region_list a") auto
    have "r_base first \<le> r_base e"
      using sorted e l by (auto simp add: regions_sorted_def intro: less_imp_le)
    then have "\<not> ?end < r_base first"
      using le by simp
    then show ?thesis
      using fits walk l by (simp add: add_region_to_aspace_def)
  qed
  have "alloc_region (malloc_ok sv) a n sz' (r_base e) 0 VMM_FLAG_VALLOC_SPECIFIC f g = None"
    for n f g
    using full flag_specific_set by (simp add: alloc_region_def alloc_region_struct_def)
  then show ?thesis
    using e_al nz ins by (simp add: vmm_reserve_space_def Let_def sz'_def)
qed

theorem reserve_existing_range_fails_witness:
  "aspace_ok scenario1_aspace \<and> regions_sorted scenario1_aspace \<and>
   regions_contained scenario1_aspace \<and> regions_page_aligned scenario1_aspace \<and>
   region_list scenario1_aspace = [scenario_region] \<and>
   vmm_reserve_space mock_services (Some scenario1_aspace) (Some ''again'') 0x2000 0x10000000
       empty_world = (ERR_NO_MEMORY, Some scenario1_aspace)"
proof -
  have ok: "aspace_ok scenario1_aspace"
    by code_simp
  have sorted: "regions_sorted scenario1_aspace"
    by code_simp
  have contained: "regions_contained scenario1_aspace"
    by code_simp
  have aligned: "regions_page_aligned scenario1_aspace"
    by code_simp
  have l: "region_list scenario1_aspace = [scenario_region]"
    by (simp add: scenario1_aspace_def)
  then have e: "scenario_region \<in> set (region_list scenario1_aspace)"
    by simp
  show ?thesis
    using reserve_existing_range_fails [OF ok sorted contained aligned e,
        of mock_services "Some ''again''" empty_world] ok sorted contained aligned l
    by (simp add: scenario_region_def)
qed

text \<open>
  Where the list is not sorted the walk can pass the region it should stop at. The
  address space \<open>wrapped_aspace\<close> is what three public calls make of the empty address
  space \<open>[0, 0xFFFFF000)\<close>; the spot of the last one wraps to address 0.
\<close>

lemma wrapped_aspace_reached:
  "(case vmm_reserve_space mock_services (Some (vmm_init 0 0xFFFFF000)) (Some ''low'')
          0xFFFF0000 0 empty_world of
      (st1, a1) \<Rightarrow>
        st1 = NO_ERROR \<and>
        (case vmm_reserve_space mock_services a1 (Some ''top'') 0x1000 0xFFFF0000 empty_world of
           (st2, a2) \<Rightarrow>
             st2 = NO_ERROR \<and>
             (case a2 of
                None \<Rightarrow> False
              | Some a \<Rightarrow>
                  vmm_alloc mock_services a (Some ''heap'') 0x1000 (Some 0x99) 16 0 0 four_pages
                    = (NO_ERROR, wrapped_aspace, Some 0,
                       \<lparr>pmm = [1, 2, 3], mmu = [(0, 0, 1, 0)]\<rparr>))))"
  by code_simp

text \<open>
  C7. \<^verbatim>\<open>vmm_reserve_space\<close> over a range equal to an existing reservation fails with
  \<open>NO_MEMORY\<close> and inserts no second region. In \<open>wrapped_aspace\<close> the reservation
  \<open>[0xFFFF0000, 0xFFFF1000)\<close> is followed by the region at address 0, and the walk of
  \<^verbatim>\<open>add_region_to_aspace\<close> finds room for the same range after that region: whenever
  the heap has room the second reservation returns \<open>NO_ERROR\<close> and the range is in the
  list twice.
\<close>

theorem repeated_reserve_inserts_duplicate:
  assumes heap: "malloc_ok sv"
  shows "map (\<lambda>r. (r_base r, r_size r, r_flags r)) (region_list wrapped_aspace)
           = [(0, 0xFFFF0000, VMM_REGION_FLAG_RESERVED),
              (0xFFFF0000, 0x1000, VMM_REGION_FLAG_RESERVED),
              (0, 0x1000, VMM_REGION_FLAG_PHYSICAL)] \<and>
         vmm_reserve_space sv (Some wrapped_aspace) name 0x1000 0xFFFF0000 w
           = (NO_ERROR,
              Some (wrapped_aspace\<lparr>region_list := region_list wrapped_aspace @
                [\<lparr>r_name = strlcpy (case name of None \<Rightarrow> [] | Some n \<Rightarrow> n) NAME_BYTES,
                  r_base = 0xFFFF0000, r_size = 0x1000, r_flags = VMM_REGION_FLAG_RESERVED,
                  r_arch_mmu_flags = (case arch_mmu_query sv 0xFFFF0000 (mmu w) of
                                        None \<Rightarrow> 0 | Some f \<Rightarrow> f),
                  r_page_list = []\<rparr>]\<rparr>))"
  using heap
  by (simp add: vmm_reserve_space_def wrapped_aspace_def IS_PAGE_ALIGNED_def PAGE_SIZE_def
      PAGE_SIZE_SHIFT_def is_inside_aspace_def trim_to_aspace_def Let_def
      alloc_region_def alloc_region_struct_def VMM_FLAG_VALLOC_SPECIFIC_def
      add_region_to_aspace_def is_region_inside_aspace_def list_add_after_def)

theorem repeated_reserve_inserts_duplicate_witness:
  "malloc_ok mock_services \<and>
   (case vmm_reserve_space mock_services (Some wrapped_aspace) (Some ''top'') 0x1000 0xFFFF0000
           empty_world of
      (st, a') \<Rightarrow>
        st = NO_ERROR \<and>
        map (\<lambda>r. (r_base r, r_size r)) (case a' of None \<Rightarrow> [] | Some a \<Rightarrow> region_list a)
          = [(0, 0xFFFF0000), (0xFFFF0000, 0x1000), (0, 0x1000), (0xFFFF0000, 0x1000)])"
proof -
  have heap: "malloc_ok mock_services"
    by code_simp
  show ?thesis
    using repeated_reserve_inserts_duplicate [OF heap, of "Some ''top''" empty_world] heap
    by (simp add: wrapped_aspace_def)
qed

subsection \<open>Page alignment of regions\<close>

text \<open>
  C8. After every public call returns, every region has a base and a size that are
  multiples of the page size, and a size that is not zero, also when \<^verbatim>\<open>vmm_alloc\<close> or
  \<^verbatim>\<open>vmm_alloc_contiguous\<close> is called with \<^verbatim>\<open>VALLOC_SPECIFIC\<close> and an unaligned \<open>*ptr\<close>.
  Neither call tests \<open>*ptr\<close>, which \<^verbatim>\<open>vmm_reserve_space\<close> does for its address: with
  \<open>*ptr = 0x10000001\<close> both succeed on the empty address space and leave a region with
  that base, on which the assertion \<^verbatim>\<open>IS_PAGE_ALIGNED(va)\<close> of \<^verbatim>\<open>vmm_alloc\<close> is false.
\<close>

theorem alloc_specific_unaligned_base:
  "regions_page_aligned scenario_aspace \<and>
   (case vmm_alloc mock_services scenario_aspace None 0x1000 (Some 0x10000001) 12
           VMM_FLAG_VALLOC_SPECIFIC 0 four_pages of
      (st, a', ptr', w') \<Rightarrow>
        st = NO_ERROR \<and> ptr' = Some 0x10000001 \<and>
        map (\<lambda>r. (r_base r, r_size r)) (region_list a') = [(0x10000001, 0x1000)] \<and>
        \<not> IS_PAGE_ALIGNED 0x10000001 \<and> \<not> regions_page_aligned a') \<and>
   (case vmm_alloc_contiguous mock_services scenario_aspace None 0x1000 (Some 0x10000001) 12
           VMM_FLAG_VALLOC_SPECIFIC 0 four_pages of
      (st, a', ptr', w') \<Rightarrow>
        st = NO_ERROR \<and> ptr' = Some 0x10000001 \<and>
        map (\<lambda>r. (r_base r, r_size r)) (region_list a') = [(0x10000001, 0x1000)] \<and>
        \<not> regions_page_aligned a')"
  by code_simp

subsection \<open>Calls with size zero\<close>

text \<open>
  C9. For a size of zero \<^verbatim>\<open>vmm_reserve_space\<close> and \<^verbatim>\<open>vmm_alloc_physical\<close> return
  \<open>NO_ERROR\<close>: they create no region and leave the address space, \<open>*ptr\<close> and the
  services as they are.
\<close>

theorem size_zero_is_success:
  "vmm_reserve_space sv (Some a) name 0 vaddr w = (NO_ERROR, Some a) \<and>
   vmm_alloc_physical sv (Some a) name 0 ptr paddr vmm_flags arch_mmu_flags w
     = (NO_ERROR, Some a, ptr, w)"
  by (simp add: vmm_reserve_space_def vmm_alloc_physical_def)

theorem size_zero_is_success_witness:
  "vmm_reserve_space mock_services (Some scenario1_aspace) None 0 0x10000000 empty_world
     = (NO_ERROR, Some scenario1_aspace) \<and>
   vmm_alloc_physical mock_services (Some scenario1_aspace) None 0 (Some 0x99) 0x80000000 0 0
       empty_world
     = (NO_ERROR, Some scenario1_aspace, Some 0x99, empty_world)"
  using size_zero_is_success [of mock_services scenario1_aspace None "0x10000000" empty_world
      "Some 0x99" "0x80000000" 0 0]
  by simp

subsection \<open>The status of the MMU driver\<close>

text \<open>
  A successful \<^verbatim>\<open>alloc_region\<close> returns the position of the new region in the list,
  which is one region longer; the region has the size asked for and no pages.
\<close>

lemma add_region_walk_position:
  "add_region_walk r r_end i xs = Some k \<Longrightarrow> i < k \<and> k \<le> i + length xs"
  by (induction xs arbitrary: i) (fastforce split: if_splits)+

lemma alloc_spot_walk_position:
  "alloc_spot_walk a sz align i xs = Some (s, k) \<Longrightarrow> i < k \<and> k \<le> i + length xs"
proof (induction xs arbitrary: i)
  case Nil
  then show ?case by simp
next
  case (Cons r rest)
  show ?case
  proof (cases "alloc_spot_walk a sz align (Suc i) rest = Some (s, k)")
    case True
    then show ?thesis using Cons.IH [of "Suc i"] by simp
  next
    case False
    then have "k = Suc i"
      using Cons.prems by (auto simp add: Let_def split: if_splits list.splits)
    then show ?thesis by simp
  qed
qed

lemma list_add_after_nth:
  "k \<le> length rs \<Longrightarrow> list_add_after k r rs ! k = r \<and> k < length (list_add_after k r rs)"
  by (simp add: list_add_after_def nth_append)

lemma alloc_region_inserts:
  assumes res: "alloc_region heap_ok a name sz vaddr align_pow2 vmm_flags region_flags
                  arch_mmu_flags = Some (k, a')"
  shows "k < length (region_list a') \<and> r_size (region_list a' ! k) = sz \<and>
         r_page_list (region_list a' ! k) = [] \<and>
         length (region_list a') = Suc (length (region_list a))"
proof -
  obtain r where r: "alloc_region_struct heap_ok name vaddr sz region_flags arch_mmu_flags = Some r"
    using res by (cases "alloc_region_struct heap_ok name vaddr sz region_flags arch_mmu_flags")
      (simp_all add: alloc_region_def)
  then have rr: "r_size r = sz" "r_page_list r = []"
    by (auto simp add: alloc_region_struct_def split: if_splits)
  show ?thesis
  proof (cases "vmm_flags AND VMM_FLAG_VALLOC_SPECIFIC = 0")
    case False
    then have add: "add_region_to_aspace a r = (NO_ERROR, a', k)"
      using res r
      by (cases "add_region_to_aspace a r") (simp add: alloc_region_def split: if_splits)
    then have l: "region_list a' = list_add_after k r (region_list a)"
      using add_region_to_aspace_list by blast
    have "k \<le> length (region_list a)"
      using add add_region_walk_position [of r "r_base r + r_size r - 1" 0 "region_list a" k]
      by (auto simp add: add_region_to_aspace_def Let_def
          split: if_splits list.splits option.splits simp del: add_region_walk.simps)
    then show ?thesis
      using l rr list_add_after_nth [of k "region_list a" r] by (simp add: list_add_after_def)
  next
    case True
    obtain spot before where sp: "alloc_spot a sz align_pow2 = (spot, before)"
      by (cases "alloc_spot a sz align_pow2")
    have a': "a' = a\<lparr>region_list := list_add_after k (r\<lparr>r_base := spot\<rparr>) (region_list a)\<rparr>"
      and before: "before = Some k"
      using res r True sp
      by (auto simp add: alloc_region_def split: if_splits option.splits)
    have "k \<le> length (region_list a)"
      using sp before alloc_spot_walk_position [of a sz _ 0 "region_list a" _ k]
      by (auto simp add: alloc_spot_def Let_def
          split: if_splits list.splits option.splits simp del: alloc_spot_walk.simps)
    then show ?thesis
      using a' rr list_add_after_nth [of k "region_list a" "r\<lparr>r_base := spot\<rparr>"]
      by (simp add: list_add_after_def)
  qed
qed

lemma holds_region_nth:
  "k < length (region_list a) \<Longrightarrow> r_size (region_list a ! k) = sz \<Longrightarrow>
   r_page_list (region_list a ! k) = pages \<Longrightarrow>
   holds_region a (r_base (region_list a ! k)) sz pages"
  by (auto simp add: holds_region_def list_ex_iff)

lemma holds_region_attach:
  "k < length (region_list a) \<Longrightarrow> r_size (region_list a ! k) = sz \<Longrightarrow>
   r_page_list (region_list a ! k) = [] \<Longrightarrow>
   holds_region (attach_pages k pages a) (r_base (region_list a ! k)) sz pages"
  unfolding holds_region_def list_ex_iff attach_pages_def
  by (rule bexI [where x = "(region_list a ! k)\<lparr>r_page_list := pages\<rparr>"])
    (auto simp add: set_update_memI)

text \<open>
  C10. What \<^verbatim>\<open>vmm_alloc_physical\<close>, \<^verbatim>\<open>vmm_alloc_contiguous\<close> and \<^verbatim>\<open>vmm_alloc\<close> return does
  not depend on the status of \<^verbatim>\<open>arch_mmu_map\<close>. For every map function \<open>f\<close>, and so for
  one whose every call fails: once the arguments have passed the tests, the pmm has
  handed out the pages and \<^verbatim>\<open>alloc_region\<close> has inserted the region, each call returns
  \<open>NO_ERROR\<close> with the address space that holds the region, \<open>*ptr\<close> set to the base of
  the region, and the MMU in the state the map calls left it in; the status of \<open>f\<close>
  appears nowhere in the result. On every path, failing ones too, the status, the
  address space, \<open>*ptr\<close> and the pmm are the same with \<open>f\<close> as with the map function of
  the services.
\<close>

theorem map_status_is_ignored:
  "(sz \<noteq> 0 \<and> IS_PAGE_ALIGNED paddr \<and> IS_PAGE_ALIGNED sz \<and>
    (vmm_flags AND VMM_FLAG_VALLOC_SPECIFIC = 0 \<or> ptr \<noteq> None) \<and>
    alloc_region (malloc_ok sv) a (case name of None \<Rightarrow> [] | Some n \<Rightarrow> n) sz
        (if vmm_flags AND VMM_FLAG_VALLOC_SPECIFIC \<noteq> 0
         then (case ptr of None \<Rightarrow> 0 | Some v \<Rightarrow> v) else 0)
        0 vmm_flags VMM_REGION_FLAG_PHYSICAL arch_mmu_flags = Some (k, an) \<longrightarrow>
      vmm_alloc_physical (sv\<lparr>arch_mmu_map := f\<rparr>) (Some a) name sz ptr paddr vmm_flags
          arch_mmu_flags w
        = (NO_ERROR, Some an,
           (case ptr of None \<Rightarrow> None | Some _ \<Rightarrow> Some (r_base (region_list an ! k))),
           w\<lparr>mmu := snd (f (r_base (region_list an ! k)) paddr (sz div PAGE_SIZE)
                           arch_mmu_flags (mmu w))\<rparr>) \<and>
      holds_region an (r_base (region_list an ! k)) sz []) \<and>
   (ROUNDUP sz PAGE_SIZE \<noteq> 0 \<and>
    (vmm_flags AND VMM_FLAG_VALLOC_SPECIFIC = 0 \<or> ptr \<noteq> None) \<and>
    pmm_alloc_contiguous sv (ROUNDUP sz PAGE_SIZE div PAGE_SIZE) align_pow (pmm w)
      = (count, pa, pages, p) \<and>
    ROUNDUP sz PAGE_SIZE div PAGE_SIZE \<le> count \<and>
    alloc_region (malloc_ok sv) a (case name of None \<Rightarrow> [] | Some n \<Rightarrow> n)
        (ROUNDUP sz PAGE_SIZE)
        (if vmm_flags AND VMM_FLAG_VALLOC_SPECIFIC \<noteq> 0
         then (case ptr of None \<Rightarrow> 0 | Some v \<Rightarrow> v) else 0)
        align_pow vmm_flags VMM_REGION_FLAG_PHYSICAL arch_mmu_flags = Some (k, an) \<longrightarrow>
      vmm_alloc_contiguous (sv\<lparr>arch_mmu_map := f\<rparr>) a name sz ptr align_pow vmm_flags
          arch_mmu_flags w
        = (NO_ERROR, attach_pages k pages an,
           (case ptr of None \<Rightarrow> None | Some _ \<Rightarrow> Some (r_base (region_list an ! k))),
           \<lparr>pmm = p,
            mmu = snd (f (r_base (region_list an ! k)) (case pa of None \<Rightarrow> 0 | Some x \<Rightarrow> x)
                         (ROUNDUP sz PAGE_SIZE div PAGE_SIZE) arch_mmu_flags (mmu w))\<rparr>) \<and>
      holds_region (attach_pages k pages an) (r_base (region_list an ! k))
        (ROUNDUP sz PAGE_SIZE) pages) \<and>
   (ROUNDUP sz PAGE_SIZE \<noteq> 0 \<and>
    (vmm_flags AND VMM_FLAG_VALLOC_SPECIFIC = 0 \<or> ptr \<noteq> None) \<and>
    pmm_alloc_pages sv (ROUNDUP sz PAGE_SIZE div PAGE_SIZE) (pmm w) = (count, pages, p) \<and>
    ROUNDUP sz PAGE_SIZE div PAGE_SIZE \<le> count \<and>
    alloc_region (malloc_ok sv) a (case name of None \<Rightarrow> [] | Some n \<Rightarrow> n)
        (ROUNDUP sz PAGE_SIZE)
        (if vmm_flags AND VMM_FLAG_VALLOC_SPECIFIC \<noteq> 0
         then (case ptr of None \<Rightarrow> 0 | Some v \<Rightarrow> v) else 0)
        align_pow vmm_flags VMM_REGION_FLAG_PHYSICAL arch_mmu_flags = Some (k, an) \<longrightarrow>
      vmm_alloc (sv\<lparr>arch_mmu_map := f\<rparr>) a name sz ptr align_pow vmm_flags arch_mmu_flags w
        = (NO_ERROR, attach_pages k pages an,
           (case ptr of None \<Rightarrow> None | Some _ \<Rightarrow> Some (r_base (region_list an ! k))),
           \<lparr>pmm = p,
            mmu = map_pages (sv\<lparr>arch_mmu_map := f\<rparr>) arch_mmu_flags
                    (r_base (region_list an ! k)) pages (mmu w)\<rparr>) \<and>
      holds_region (attach_pages k pages an) (r_base (region_list an ! k))
        (ROUNDUP sz PAGE_SIZE) pages) \<and>
   call_result (vmm_alloc_physical (sv\<lparr>arch_mmu_map := f\<rparr>) (Some a) name sz ptr paddr
        vmm_flags arch_mmu_flags w)
     = call_result (vmm_alloc_physical sv (Some a) name sz ptr paddr vmm_flags
        arch_mmu_flags w) \<and>
   call_result (vmm_alloc_contiguous (sv\<lparr>arch_mmu_map := f\<rparr>) a name sz ptr align_pow
        vmm_flags arch_mmu_flags w)
     = call_result (vmm_alloc_contiguous sv a name sz ptr align_pow vmm_flags
        arch_mmu_flags w) \<and>
   call_result (vmm_alloc (sv\<lparr>arch_mmu_map := f\<rparr>) a name sz ptr align_pow vmm_flags
        arch_mmu_flags w)
     = call_result (vmm_alloc sv a name sz ptr align_pow vmm_flags arch_mmu_flags w)"
proof (intro conjI impI)
  assume h: "sz \<noteq> 0 \<and> IS_PAGE_ALIGNED paddr \<and> IS_PAGE_ALIGNED sz \<and>
    (vmm_flags AND VMM_FLAG_VALLOC_SPECIFIC = 0 \<or> ptr \<noteq> None) \<and>
    alloc_region (malloc_ok sv) a (case name of None \<Rightarrow> [] | Some n \<Rightarrow> n) sz
        (if vmm_flags AND VMM_FLAG_VALLOC_SPECIFIC \<noteq> 0
         then (case ptr of None \<Rightarrow> 0 | Some v \<Rightarrow> v) else 0)
        0 vmm_flags VMM_REGION_FLAG_PHYSICAL arch_mmu_flags = Some (k, an)"
  then show "vmm_alloc_physical (sv\<lparr>arch_mmu_map := f\<rparr>) (Some a) name sz ptr paddr vmm_flags
          arch_mmu_flags w
        = (NO_ERROR, Some an,
           (case ptr of None \<Rightarrow> None | Some _ \<Rightarrow> Some (r_base (region_list an ! k))),
           w\<lparr>mmu := snd (f (r_base (region_list an ! k)) paddr (sz div PAGE_SIZE)
                           arch_mmu_flags (mmu w))\<rparr>)"
    by (auto simp add: vmm_alloc_physical_def Let_def split: prod.splits)
  show "holds_region an (r_base (region_list an ! k)) sz []"
    using h alloc_region_inserts holds_region_nth by blast
next
  assume h: "ROUNDUP sz PAGE_SIZE \<noteq> 0 \<and>
    (vmm_flags AND VMM_FLAG_VALLOC_SPECIFIC = 0 \<or> ptr \<noteq> None) \<and>
    pmm_alloc_contiguous sv (ROUNDUP sz PAGE_SIZE div PAGE_SIZE) align_pow (pmm w)
      = (count, pa, pages, p) \<and>
    ROUNDUP sz PAGE_SIZE div PAGE_SIZE \<le> count \<and>
    alloc_region (malloc_ok sv) a (case name of None \<Rightarrow> [] | Some n \<Rightarrow> n)
        (ROUNDUP sz PAGE_SIZE)
        (if vmm_flags AND VMM_FLAG_VALLOC_SPECIFIC \<noteq> 0
         then (case ptr of None \<Rightarrow> 0 | Some v \<Rightarrow> v) else 0)
        align_pow vmm_flags VMM_REGION_FLAG_PHYSICAL arch_mmu_flags = Some (k, an)"
  then show "vmm_alloc_contiguous (sv\<lparr>arch_mmu_map := f\<rparr>) a name sz ptr align_pow vmm_flags
          arch_mmu_flags w
        = (NO_ERROR, attach_pages k pages an,
           (case ptr of None \<Rightarrow> None | Some _ \<Rightarrow> Some (r_base (region_list an ! k))),
           \<lparr>pmm = p,
            mmu = snd (f (r_base (region_list an ! k)) (case pa of None \<Rightarrow> 0 | Some x \<Rightarrow> x)
                         (ROUNDUP sz PAGE_SIZE div PAGE_SIZE) arch_mmu_flags (mmu w))\<rparr>)"
    by (auto simp add: vmm_alloc_contiguous_def Let_def split: prod.splits)
  show "holds_region (attach_pages k pages an) (r_base (region_list an ! k))
        (ROUNDUP sz PAGE_SIZE) pages"
    using h alloc_region_inserts holds_region_attach by blast
next
  assume h: "ROUNDUP sz PAGE_SIZE \<noteq> 0 \<and>
    (vmm_flags AND VMM_FLAG_VALLOC_SPECIFIC = 0 \<or> ptr \<noteq> None) \<and>
    pmm_alloc_pages sv (ROUNDUP sz PAGE_SIZE div PAGE_SIZE) (pmm w) = (count, pages, p) \<and>
    ROUNDUP sz PAGE_SIZE div PAGE_SIZE \<le> count \<and>
    alloc_region (malloc_ok sv) a (case name of None \<Rightarrow> [] | Some n \<Rightarrow> n)
        (ROUNDUP sz PAGE_SIZE)
        (if vmm_flags AND VMM_FLAG_VALLOC_SPECIFIC \<noteq> 0
         then (case ptr of None \<Rightarrow> 0 | Some v \<Rightarrow> v) else 0)
        align_pow vmm_flags VMM_REGION_FLAG_PHYSICAL arch_mmu_flags = Some (k, an)"
  then show "vmm_alloc (sv\<lparr>arch_mmu_map := f\<rparr>) a name sz ptr align_pow vmm_flags arch_mmu_flags w
        = (NO_ERROR, attach_pages k pages an,
           (case ptr of None \<Rightarrow> None | Some _ \<Rightarrow> Some (r_base (region_list an ! k))),
           \<lparr>pmm = p,
            mmu = map_pages (sv\<lparr>arch_mmu_map := f\<rparr>) arch_mmu_flags
                    (r_base (region_list an ! k)) pages (mmu w)\<rparr>)"
    by (auto simp add: vmm_alloc_def Let_def split: prod.splits)
  show "holds_region (attach_pages k pages an) (r_base (region_list an ! k))
        (ROUNDUP sz PAGE_SIZE) pages"
    using h alloc_region_inserts holds_region_attach by blast
next
  show "call_result (vmm_alloc_physical (sv\<lparr>arch_mmu_map := f\<rparr>) (Some a) name sz ptr paddr
        vmm_flags arch_mmu_flags w)
     = call_result (vmm_alloc_physical sv (Some a) name sz ptr paddr vmm_flags
        arch_mmu_flags w)"
    by (simp add: vmm_alloc_physical_def call_result_def Let_def
        split: option.splits prod.splits)
  show "call_result (vmm_alloc_contiguous (sv\<lparr>arch_mmu_map := f\<rparr>) a name sz ptr align_pow
        vmm_flags arch_mmu_flags w)
     = call_result (vmm_alloc_contiguous sv a name sz ptr align_pow vmm_flags
        arch_mmu_flags w)"
    by (simp add: vmm_alloc_contiguous_def call_result_def Let_def
        split: option.splits prod.splits)
  show "call_result (vmm_alloc (sv\<lparr>arch_mmu_map := f\<rparr>) a name sz ptr align_pow vmm_flags
        arch_mmu_flags w)
     = call_result (vmm_alloc sv a name sz ptr align_pow vmm_flags arch_mmu_flags w)"
    by (simp add: vmm_alloc_def call_result_def Let_def split: option.splits prod.splits)
qed

theorem map_status_is_ignored_witness:
  "vmm_alloc_physical (mock_services\<lparr>arch_mmu_map := failing_map\<rparr>) (Some scenario1_aspace)
       None 0x1000 (Some 0x99) 0x80000000 0 0 four_pages
     = (NO_ERROR,
        Some (scenario1_aspace\<lparr>region_list :=
          [scenario_region,
           \<lparr>r_name = [], r_base = 0x10002000, r_size = 0x1000,
            r_flags = VMM_REGION_FLAG_PHYSICAL, r_arch_mmu_flags = 0, r_page_list = []\<rparr>]\<rparr>),
        Some 0x10002000, four_pages) \<and>
   vmm_alloc_contiguous (mock_services\<lparr>arch_mmu_map := failing_map\<rparr>) scenario1_aspace
       None 0x1000 (Some 0x99) 12 0 0 four_pages
     = (NO_ERROR,
        scenario1_aspace\<lparr>region_list :=
          [scenario_region,
           \<lparr>r_name = [], r_base = 0x10002000, r_size = 0x1000,
            r_flags = VMM_REGION_FLAG_PHYSICAL, r_arch_mmu_flags = 0, r_page_list = [0]\<rparr>]\<rparr>,
        Some 0x10002000, \<lparr>pmm = [1, 2, 3], mmu = []\<rparr>) \<and>
   vmm_alloc (mock_services\<lparr>arch_mmu_map := failing_map\<rparr>) scenario1_aspace
       None 0x1000 (Some 0x99) 12 0 0 four_pages
     = (NO_ERROR,
        scenario1_aspace\<lparr>region_list :=
          [scenario_region,
           \<lparr>r_name = [], r_base = 0x10002000, r_size = 0x1000,
            r_flags = VMM_REGION_FLAG_PHYSICAL, r_arch_mmu_flags = 0, r_page_list = [0]\<rparr>]\<rparr>,
        Some 0x10002000, \<lparr>pmm = [1, 2, 3], mmu = []\<rparr>)"
proof -
  let ?new = "\<lparr>r_name = [], r_base = 0x10002000, r_size = 0x1000,
            r_flags = VMM_REGION_FLAG_PHYSICAL, r_arch_mmu_flags = 0, r_page_list = []\<rparr>"
  let ?an = "scenario1_aspace\<lparr>region_list := [scenario_region, ?new]\<rparr>"
  let ?sv = "mock_services\<lparr>arch_mmu_map := failing_map\<rparr>"
  have h1: "(0x1000 :: 32 word) \<noteq> 0 \<and> IS_PAGE_ALIGNED 0x80000000 \<and> IS_PAGE_ALIGNED 0x1000 \<and>
    ((0 :: 32 word) AND VMM_FLAG_VALLOC_SPECIFIC = 0 \<or> Some (0x99 :: 32 word) \<noteq> None) \<and>
    alloc_region (malloc_ok mock_services) scenario1_aspace
        (case None of None \<Rightarrow> [] | Some n \<Rightarrow> n) 0x1000
        (if (0 :: 32 word) AND VMM_FLAG_VALLOC_SPECIFIC \<noteq> 0
         then (case Some 0x99 of None \<Rightarrow> 0 | Some v \<Rightarrow> v) else 0)
        0 0 VMM_REGION_FLAG_PHYSICAL 0 = Some (1, ?an)"
    by code_simp
  have h2: "ROUNDUP 0x1000 PAGE_SIZE \<noteq> 0 \<and>
    ((0 :: 32 word) AND VMM_FLAG_VALLOC_SPECIFIC = 0 \<or> Some (0x99 :: 32 word) \<noteq> None) \<and>
    pmm_alloc_contiguous mock_services (ROUNDUP 0x1000 PAGE_SIZE div PAGE_SIZE) 12
        (pmm four_pages) = (1, Some 0, [0], [1, 2, 3]) \<and>
    ROUNDUP 0x1000 PAGE_SIZE div PAGE_SIZE \<le> 1 \<and>
    alloc_region (malloc_ok mock_services) scenario1_aspace
        (case None of None \<Rightarrow> [] | Some n \<Rightarrow> n) (ROUNDUP 0x1000 PAGE_SIZE)
        (if (0 :: 32 word) AND VMM_FLAG_VALLOC_SPECIFIC \<noteq> 0
         then (case Some 0x99 of None \<Rightarrow> 0 | Some v \<Rightarrow> v) else 0)
        12 0 VMM_REGION_FLAG_PHYSICAL 0 = Some (1, ?an)"
    by code_simp
  have h3: "ROUNDUP 0x1000 PAGE_SIZE \<noteq> 0 \<and>
    ((0 :: 32 word) AND VMM_FLAG_VALLOC_SPECIFIC = 0 \<or> Some (0x99 :: 32 word) \<noteq> None) \<and>
    pmm_alloc_pages mock_services (ROUNDUP 0x1000 PAGE_SIZE div PAGE_SIZE) (pmm four_pages)
      = (1, [0], [1, 2, 3]) \<and>
    ROUNDUP 0x1000 PAGE_SIZE div PAGE_SIZE \<le> 1 \<and>
    alloc_region (malloc_ok mock_services) scenario1_aspace
        (case None of None \<Rightarrow> [] | Some n \<Rightarrow> n) (ROUNDUP 0x1000 PAGE_SIZE)
        (if (0 :: 32 word) AND VMM_FLAG_VALLOC_SPECIFIC \<noteq> 0
         then (case Some 0x99 of None \<Rightarrow> 0 | Some v \<Rightarrow> v) else 0)
        12 0 VMM_REGION_FLAG_PHYSICAL 0 = Some (1, ?an)"
    by code_simp
  have nth: "region_list ?an ! 1 = ?new"
    by simp
  have att: "attach_pages 1 [0] ?an
      = scenario1_aspace\<lparr>region_list := [scenario_region, ?new\<lparr>r_page_list := [0]\<rparr>]\<rparr>"
    by (simp add: attach_pages_def)
  have w: "four_pages\<lparr>mmu := mmu four_pages\<rparr> = four_pages"
    "mmu four_pages = []"
    by (simp_all add: four_pages_def)
  have mp: "map_pages ?sv 0 0x10002000 [0] [] = []"
    by (simp add: failing_map_def)
  note inst = map_status_is_ignored [where f = failing_map and sv = mock_services
      and a = scenario1_aspace and name = None and sz = "0x1000" and ptr = "Some 0x99"
      and paddr = "0x80000000" and align_pow = 12 and vmm_flags = 0 and arch_mmu_flags = 0
      and w = four_pages and k = 1 and an = ?an and count = 1 and pa = "Some 0"
      and pages = "[0]" and p = "[1, 2, 3]"]
  have c1: "vmm_alloc_physical ?sv (Some scenario1_aspace) None 0x1000 (Some 0x99) 0x80000000
      0 0 four_pages
      = (NO_ERROR, Some ?an,
         (case Some (0x99 :: 32 word) of None \<Rightarrow> None
          | Some _ \<Rightarrow> Some (r_base (region_list ?an ! 1))),
         four_pages\<lparr>mmu := snd (failing_map (r_base (region_list ?an ! 1)) 0x80000000
                         (0x1000 div PAGE_SIZE) 0 (mmu four_pages))\<rparr>)"
    using inst h1 by blast
  have c2: "vmm_alloc_contiguous ?sv scenario1_aspace None 0x1000 (Some 0x99) 12 0 0 four_pages
      = (NO_ERROR, attach_pages 1 [0] ?an,
         (case Some (0x99 :: 32 word) of None \<Rightarrow> None
          | Some _ \<Rightarrow> Some (r_base (region_list ?an ! 1))),
         \<lparr>pmm = [1, 2, 3],
          mmu = snd (failing_map (r_base (region_list ?an ! 1))
                       (case Some 0 of None \<Rightarrow> 0 | Some x \<Rightarrow> x)
                       (ROUNDUP 0x1000 PAGE_SIZE div PAGE_SIZE) 0 (mmu four_pages))\<rparr>)"
    using inst h2 by blast
  have c3: "vmm_alloc ?sv scenario1_aspace None 0x1000 (Some 0x99) 12 0 0 four_pages
      = (NO_ERROR, attach_pages 1 [0] ?an,
         (case Some (0x99 :: 32 word) of None \<Rightarrow> None
          | Some _ \<Rightarrow> Some (r_base (region_list ?an ! 1))),
         \<lparr>pmm = [1, 2, 3],
          mmu = map_pages ?sv 0 (r_base (region_list ?an ! 1)) [0] (mmu four_pages)\<rparr>)"
    using inst h3 by blast
  show ?thesis
    unfolding c1 c2 c3 nth att w
    by (simp add: failing_map_def w)
qed

end
